theory Spec2Isabelle
  imports Complex_Main "HOL-Library.Multiset" "HOL-Library.Sublist"
begin

section \<open>Data model\<close>

text \<open>
  An entry of \<^verbatim>\<open>roles.json\<close> (a task of the role queue): the role name, its colour as a
  hex string, and an optional emoji that only the dropdown uses.
\<close>

record task =
  name :: string
  color :: string
  emoji :: "string option"

text \<open>
  A role of the guild as the client library hands it out: only the two fields the bot
  reads, \<^verbatim>\<open>role.id\<close> and \<^verbatim>\<open>role.name\<close>.
\<close>

record role =
  role_id :: string
  role_name :: string

text \<open>
  The error object a rejected request carries. The handler reads \<^verbatim>\<open>err.code\<close>,
  \<^verbatim>\<open>err.message\<close> and \<^verbatim>\<open>err.retryAfter\<close>; a missing field is \<open>None\<close>.
\<close>

record err =
  code :: "int option"
  message :: "string option"
  retryAfter :: "int option"

datatype outcome = Resolved role | Rejected err

text \<open>
  The guild: \<^verbatim>\<open>guild.roles.cache\<close> (the roles in iteration order) and
  \<^verbatim>\<open>guild.roles.create\<close>. Both belong to the client library, so they are parameters.
  The request built for a task is a function of the task, so \<open>roles_create\<close> takes the
  task itself; its first argument is the list of tasks it was invoked for before, which
  lets the answer depend on everything that was requested earlier. The cache is the
  snapshot of the existing roles as it is when a call starts; a call does not change it.
\<close>

record guild =
  roles_cache :: "role list"
  roles_create :: "task list \<Rightarrow> task \<Rightarrow> outcome"

datatype error = TypeError | RangeError

text \<open>\<^verbatim>\<open>guild.roles.cache.find((r) => r.name === name)\<close>\<close>

definition cache_find :: "guild \<Rightarrow> string \<Rightarrow> role option" where
  "cache_find g n = find (\<lambda>r. role_name r = n) (roles_cache g)"


section \<open>chunkArray and the dropdown pages\<close>

text \<open>\<^verbatim>\<open>arr.slice(a, b)\<close> for indices \<open>0 \<le> a \<le> b\<close>; both ends are clamped to the length.\<close>

definition slice :: "'a list \<Rightarrow> nat \<Rightarrow> nat \<Rightarrow> 'a list" where
  "slice arr a b = take (b - a) (drop a arr)"

text \<open>\<^verbatim>\<open>Math.ceil(n / size)\<close> on non-negative integers, \<open>size > 0\<close>.\<close>

definition ceil_div :: "nat \<Rightarrow> nat \<Rightarrow> nat" where
  "ceil_div n sz = (n + sz - 1) div sz"

text \<open>
  \<^verbatim>\<open>
  function chunkArray(arr, size) {
    return Array.from({ length: Math.ceil(arr.length / size) }, (_, i) =>
      arr.slice(i * size, i * size + size));
  }
  \<close>
  With \<open>size = 0\<close> the quotient is \<^verbatim>\<open>NaN\<close> for an empty array (length 0, result \<^verbatim>\<open>[]\<close>)
  and \<^verbatim>\<open>Infinity\<close> otherwise, where \<^verbatim>\<open>Array.from\<close> throws a RangeError.
\<close>

definition chunkArray :: "'a list \<Rightarrow> nat \<Rightarrow> error + 'a list list" where
  "chunkArray arr sz =
     (if sz = 0 then (if arr = [] then Inr [] else Inl RangeError)
      else Inr (map (\<lambda>i. slice arr (i * sz) (i * sz + sz))
                  [0 ..< ceil_div (length arr) sz]))"

text \<open>The entries of the dropdown: a role found in the cache with its emoji and colour.\<close>

record enriched =
  e_role :: role
  e_emoji :: "string option"
  hex :: string

record menu_option =
  label :: string
  opt_value :: string
  opt_emoji :: "string option"
  description :: string

text \<open>\<^verbatim>\<open>data.emoji || null\<close>: a missing or empty emoji becomes null.\<close>

definition emoji_or_null :: "string option \<Rightarrow> string option" where
  "emoji_or_null e = (case e of None \<Rightarrow> None | Some s \<Rightarrow> if s = [] then None else Some s)"

text \<open>
  \<^verbatim>\<open>
  const enrichedRoles = rolesData
    .map((data) => {
      const role = guildRoles.find((r) => r.name === data.name);
      return { role, emoji: data.emoji || null, hex: data.color };
    })
    .filter((r) => r.role);
  \<close>
\<close>

definition enrichedRoles :: "guild \<Rightarrow> task list \<Rightarrow> enriched list" where
  "enrichedRoles g rolesData =
     List.map_filter
       (\<lambda>data. case cache_find g (name data) of
                  None \<Rightarrow> None
                | Some r \<Rightarrow> Some \<lparr>e_role = r, e_emoji = emoji_or_null (emoji data), hex = color data\<rparr>)
       rolesData"

definition menu_options :: "enriched list \<Rightarrow> menu_option list" where
  "menu_options chunk =
     map (\<lambda>e. \<lparr>label = role_name (e_role e), opt_value = role_id (e_role e),
                opt_emoji = e_emoji e, description = hex e\<rparr>) chunk"

text \<open>
  The pages the \<^verbatim>\<open>dropdown\<close> subcommand sends: one list of options per chunk of
  \<^verbatim>\<open>chunkArray(enrichedRoles, 25)\<close>.
\<close>

definition dropdown_pages :: "guild \<Rightarrow> task list \<Rightarrow> error + menu_option list list" where
  "dropdown_pages g rolesData =
     (case chunkArray (enrichedRoles g rolesData) 25 of
        Inl e \<Rightarrow> Inl e
      | Inr chunks \<Rightarrow> Inr (map menu_options chunks))"

section \<open>The select-menu handler\<close>









section \<open>The role creation queue\<close>

text \<open>
  \<^verbatim>\<open>err.code === 30010 || err.message?.includes("Too Many Requests")\<close>: the test that
  classifies an error as a rate limit. \<^verbatim>\<open>includes\<close> looks for a contiguous substring.
\<close>

definition str_includes :: "string \<Rightarrow> string \<Rightarrow> bool" where
  "str_includes s sub = sublist sub s"

definition is_rate_limit :: "err \<Rightarrow> bool" where
  "is_rate_limit e =
     (code e = Some 30010 \<or>
      (case message e of None \<Rightarrow> False | Some m \<Rightarrow> str_includes m ''Too Many Requests''))"

text \<open>\<^verbatim>\<open>const waitTime = err.retryAfter ?? 5000;\<close>\<close>

definition waitTime :: "err \<Rightarrow> int" where
  "waitTime e = (case retryAfter e of None \<Rightarrow> 5000 | Some ms \<Rightarrow> ms)"

text \<open>
  What a worker does that can be seen from outside, tagged with the index of the worker:
  \<^item> \<open>Shift w t\<close>: \<^verbatim>\<open>queue.shift()\<close> handed \<open>t\<close> to worker \<open>w\<close>;
  \<^item> \<open>Found w t r\<close>: the role exists, the else branch pushed \<open>r\<close>;
  \<^item> \<open>Create w t\<close>: \<^verbatim>\<open>guild.roles.create\<close> was invoked for \<open>t\<close>;
  \<^item> \<open>Created w t r\<close>: the request resolved, \<open>r\<close> was logged and pushed;
  \<^item> \<open>RateLimited w t e\<close>: the catch block took the rate-limit branch;
  \<^item> \<open>Failed w t e\<close>: the catch block took the else branch (\<^verbatim>\<open>console.error\<close>);
  \<^item> \<open>Delay w ms\<close>: \<^verbatim>\<open>delay(ms)\<close> was called.
\<close>

datatype event =
    Shift nat task
  | Found nat task role
  | Create nat task
  | Created nat task role
  | RateLimited nat task err
  | Failed nat task err
  | Delay nat int

text \<open>
  Where a worker is suspended. A worker runs from one \<^verbatim>\<open>await\<close> to the next without
  interruption; between two awaits no other worker runs.
  \<^item> \<open>AtLoop\<close>: not started yet, at the head of \<^verbatim>\<open>while (queue.length > 0)\<close>;
  \<^item> \<open>AwaitCreate t out\<close>: in \<^verbatim>\<open>await guild.roles.create(...)\<close> for \<open>t\<close>, which will
    settle with \<open>out\<close>;
  \<^item> \<open>AwaitPace\<close>: in \<^verbatim>\<open>await delay(300)\<close> after a creation;
  \<^item> \<open>AwaitBackoff t\<close>: in \<^verbatim>\<open>await delay(waitTime)\<close> after a rate limit on \<open>t\<close>;
  \<^item> \<open>Finished\<close>: the worker's promise is resolved.
\<close>

datatype pc = AtLoop | AwaitCreate task outcome | AwaitPace | AwaitBackoff task | Finished

record state =
  queue :: "task list"
  createdRoles :: "role list"
  workers :: "pc list"
  log :: "event list"

text \<open>The tasks \<^verbatim>\<open>guild.roles.create\<close> was invoked for, in order.\<close>

fun creates :: "event list \<Rightarrow> task list" where
  "creates [] = []"
| "creates (Create w t # es) = t # creates es"
| "creates (e # es) = creates es"

text \<open>\<^verbatim>\<open>queue.shift()\<close>: the first element, or \<^verbatim>\<open>undefined\<close> on an empty array.\<close>

definition shift :: "'a list \<Rightarrow> 'a option \<times> 'a list" where
  "shift q = (case q of [] \<Rightarrow> (None, []) | x # xs \<Rightarrow> (Some x, xs))"

text \<open>
  The outer loop of a worker from its head to the next \<^verbatim>\<open>await\<close> or to its exit:
  \<^verbatim>\<open>
  while (queue.length > 0) {
    const { name, color } = queue.shift();
    let role = guild.roles.cache.find((r) => r.name === name);
    if (!role) {
      let success = false;
      while (!success) {
        try {
          const primaryColor = parseInt(color.replace("#", ""), 16);
          role = await guild.roles.create({ name, color: primaryColor });
          ...
    } else {
      createdRoles.push(role);
    }
  }
  \<close>
  Destructuring \<^verbatim>\<open>undefined\<close> throws a TypeError outside the \<^verbatim>\<open>try\<close>. Inside the
  \<^verbatim>\<open>try\<close>, building the request from the name and the colour string does not throw, so
  the block is left only by the answer of \<^verbatim>\<open>create\<close>, which the guild gives when the
  request is made.
\<close>

function worker_loop :: "guild \<Rightarrow> nat \<Rightarrow> state \<Rightarrow> error + state" where
  "worker_loop g w s =
     (if length (queue s) > 0 then
        (case shift (queue s) of
           (None, q) \<Rightarrow> Inl TypeError
         | (Some t, q) \<Rightarrow>
             (case cache_find g (name t) of
                Some r \<Rightarrow>
                  worker_loop g w
                    (s\<lparr>queue := q, createdRoles := createdRoles s @ [r],
                       log := log s @ [Shift w t, Found w t r]\<rparr>)
              | None \<Rightarrow>
                  Inr (s\<lparr>queue := q, log := log s @ [Shift w t, Create w t],
                         workers := (workers s)
                           [w := AwaitCreate t (roles_create g (creates (log s)) t)]\<rparr>)))
      else Inr (s\<lparr>workers := (workers s)[w := Finished]\<rparr>))"
  by pat_completeness auto
termination
  by (relation "measure (\<lambda>(g, w, s). length (queue s))")
     (auto simp: shift_def split: list.splits)

declare worker_loop.simps [simp del]

text \<open>
  Worker \<open>w\<close> continues after its \<^verbatim>\<open>await\<close> has settled, up to its next \<^verbatim>\<open>await\<close>:
  \<^verbatim>\<open>
          role = await guild.roles.create({ name, color: primaryColor });
          console.log(`Created role: ${name}`);
          createdRoles.push(role);
          success = true;
          await delay(300);
        } catch (err) {
          if (err.code === 30010 || err.message?.includes("Too Many Requests")) {
            const waitTime = err.retryAfter ?? 5000;
            console.log(`Rate limited on "${name}". Waiting ${waitTime}ms...`);
            await delay(waitTime);
          } else {
            console.error(`Failed to create role "${name}":`, err);
            success = true; // skip errors
          }
        }
  \<close>
\<close>

definition resume :: "guild \<Rightarrow> nat \<Rightarrow> state \<Rightarrow> error + state" where
  "resume g w s =
     (case workers s ! w of
        AtLoop \<Rightarrow> worker_loop g w s
      | AwaitCreate t out \<Rightarrow>
          (case out of
             Resolved r \<Rightarrow>
               Inr (s\<lparr>createdRoles := createdRoles s @ [r],
                      log := log s @ [Created w t r, Delay w 300],
                      workers := (workers s)[w := AwaitPace]\<rparr>)
           | Rejected e \<Rightarrow>
               if is_rate_limit e then
                 Inr (s\<lparr>log := log s @ [RateLimited w t e, Delay w (waitTime e)],
                        workers := (workers s)[w := AwaitBackoff t]\<rparr>)
               else worker_loop g w (s\<lparr>log := log s @ [Failed w t e]\<rparr>))
      | AwaitPace \<Rightarrow> worker_loop g w s
      | AwaitBackoff t \<Rightarrow>
          Inr (s\<lparr>log := log s @ [Create w t],
                 workers := (workers s)
                   [w := AwaitCreate t (roles_create g (creates (log s)) t)]\<rparr>)
      | Finished \<Rightarrow> Inr s)"

text \<open>A worker can be continued when it exists and has not finished.\<close>

definition enabled :: "nat \<Rightarrow> state \<Rightarrow> bool" where
  "enabled w s = (w < length (workers s) \<and> workers s ! w \<noteq> Finished)"

text \<open>
  The order in which the awaits settle is the environment's choice: a schedule names, step
  by step, the worker that continues. An entry that names no suspended worker is skipped.
\<close>

fun exec :: "guild \<Rightarrow> nat list \<Rightarrow> state \<Rightarrow> error + state" where
  "exec g [] s = Inr s"
| "exec g (w # ws) s =
     (if enabled w s then
        (case resume g w s of Inl e \<Rightarrow> Inl e | Inr s' \<Rightarrow> exec g ws s')
      else exec g ws s)"

text \<open>
  \<^verbatim>\<open>
  const createdRoles = [];
  const queue = [...rolesData];
  const workers = Array(concurrency).fill(null).map(async () => { ... });
  \<close>
  The number of workers is a natural number.
\<close>

definition init :: "task list \<Rightarrow> nat \<Rightarrow> state" where
  "init rolesData concurrency =
     \<lparr>queue = rolesData, createdRoles = [], workers = replicate concurrency AtLoop, log = []\<rparr>"

text \<open>
  \<^verbatim>\<open>map\<close> starts the workers one after the other, each running to its first
  \<^verbatim>\<open>await\<close>; after that the schedule decides.
\<close>

definition run :: "guild \<Rightarrow> task list \<Rightarrow> nat \<Rightarrow> nat list \<Rightarrow> error + state" where
  "run g rolesData concurrency sched =
     exec g ([0 ..< concurrency] @ sched) (init rolesData concurrency)"

text \<open>\<^verbatim>\<open>await Promise.all(workers)\<close> is through when every worker has finished.\<close>

definition resolved :: "state \<Rightarrow> bool" where
  "resolved s = list_all (\<lambda>p. p = Finished) (workers s)"

datatype result = Raised error | Pending | Returned "role list"

text \<open>
  \<^verbatim>\<open>
  await Promise.all(workers);
  return createdRoles;
  \<close>
  The call under a schedule: it raised, it is still waiting when the schedule ends, or it
  returned the array.
\<close>

definition createRoleQueueConcurrent :: "guild \<Rightarrow> task list \<Rightarrow> nat \<Rightarrow> nat list \<Rightarrow> result" where
  "createRoleQueueConcurrent g rolesData concurrency sched =
     (case run g rolesData concurrency sched of
        Inl e \<Rightarrow> Raised e
      | Inr s \<Rightarrow> if resolved s then Returned (createdRoles s) else Pending)"

subsection \<open>Reading the event log\<close>

fun shift_of :: "event \<Rightarrow> task option" where
  "shift_of (Shift w t) = Some t"
| "shift_of e = None"

fun pushed_of :: "event \<Rightarrow> (task \<times> role) option" where
  "pushed_of (Found w t r) = Some (t, r)"
| "pushed_of (Created w t r) = Some (t, r)"
| "pushed_of e = None"

fun ratelimited_of :: "event \<Rightarrow> (task \<times> err) option" where
  "ratelimited_of (RateLimited w t e) = Some (t, e)"
| "ratelimited_of e = None"

fun failed_of :: "event \<Rightarrow> (task \<times> err) option" where
  "failed_of (Failed w t e) = Some (t, e)"
| "failed_of e = None"

text \<open>The tasks taken from the queue, in order.\<close>

definition shifted :: "event list \<Rightarrow> task list" where
  "shifted lg = List.map_filter shift_of lg"

text \<open>The pushes to \<^verbatim>\<open>createdRoles\<close>, each with the task it was made for.\<close>

definition pushed :: "event list \<Rightarrow> (task \<times> role) list" where
  "pushed lg = List.map_filter pushed_of lg"

text \<open>The rate-limit errors caught, each with its task.\<close>

definition ratelimited :: "event list \<Rightarrow> (task \<times> err) list" where
  "ratelimited lg = List.map_filter ratelimited_of lg"

text \<open>The permanent failures logged, each with its task.\<close>

definition failed :: "event list \<Rightarrow> (task \<times> err) list" where
  "failed lg = List.map_filter failed_of lg"

section \<open>Summaries of a step\<close>

text \<open>
  The proofs describe a step of a worker by what it appends to the log, where it suspends
  next and what it leaves in the queue. \<open>loop_chunk\<close> is that description for the outer
  loop, \<open>effect\<close> for a continuation, and \<open>commit\<close> writes it into the state;
  \<open>resume_commit\<close> below shows that \<open>resume\<close> is exactly this.
\<close>

fun loop_chunk :: "guild \<Rightarrow> nat \<Rightarrow> task list \<Rightarrow> task list \<Rightarrow> event list \<times> pc \<times> task list" where
  "loop_chunk g w h [] = ([], Finished, [])"
| "loop_chunk g w h (t # q) =
     (case cache_find g (name t) of
        Some r \<Rightarrow> (case loop_chunk g w h q of (c, p, q') \<Rightarrow> (Shift w t # Found w t r # c, p, q'))
      | None \<Rightarrow> ([Shift w t, Create w t], AwaitCreate t (roles_create g h t), q))"

definition effect :: "guild \<Rightarrow> nat \<Rightarrow> task list \<Rightarrow> task list \<Rightarrow> pc \<Rightarrow> event list \<times> pc \<times> task list" where
  "effect g w h q p =
     (case p of
        AtLoop \<Rightarrow> loop_chunk g w h q
      | AwaitCreate t out \<Rightarrow>
          (case out of
             Resolved r \<Rightarrow> ([Created w t r, Delay w 300], AwaitPace, q)
           | Rejected e \<Rightarrow>
               if is_rate_limit e then ([RateLimited w t e, Delay w (waitTime e)], AwaitBackoff t, q)
               else (case loop_chunk g w h q of (c, p', q') \<Rightarrow> (Failed w t e # c, p', q')))
      | AwaitPace \<Rightarrow> loop_chunk g w h q
      | AwaitBackoff t \<Rightarrow> ([Create w t], AwaitCreate t (roles_create g h t), q)
      | Finished \<Rightarrow> ([], Finished, q))"

definition commit :: "nat \<Rightarrow> event list \<times> pc \<times> task list \<Rightarrow> state \<Rightarrow> state" where
  "commit w x s =
     (case x of (c, p, q) \<Rightarrow>
        s\<lparr>queue := q, createdRoles := createdRoles s @ map snd (pushed c),
          log := log s @ c, workers := (workers s)[w := p]\<rparr>)"

section \<open>The ledger of a run\<close>

text \<open>
  What the proofs count: the tasks in flight in the workers, the requests that are open,
  and the answers the guild gave. \<open>ledger\<close> is the invariant of every run: each task
  taken from the queue is accounted for exactly once.
\<close>

definition notfound :: "guild \<Rightarrow> task \<Rightarrow> bool" where
  "notfound g t = (cache_find g (name t) = None)"

fun inflight_of :: "pc \<Rightarrow> task multiset" where
  "inflight_of (AwaitCreate t out) = {#t#}"
| "inflight_of (AwaitBackoff t) = {#t#}"
| "inflight_of p = {#}"

fun backoff_of :: "pc \<Rightarrow> task multiset" where
  "backoff_of (AwaitBackoff t) = {#t#}"
| "backoff_of p = {#}"

fun pending_of :: "pc \<Rightarrow> (task \<times> outcome) multiset" where
  "pending_of (AwaitCreate t out) = {#(t, out)#}"
| "pending_of p = {#}"

definition inflight :: "state \<Rightarrow> task multiset" where
  "inflight s = (\<Sum>p\<in>#mset (workers s). inflight_of p)"

definition backoff :: "state \<Rightarrow> task multiset" where
  "backoff s = (\<Sum>p\<in>#mset (workers s). backoff_of p)"

definition pending :: "state \<Rightarrow> (task \<times> outcome) multiset" where
  "pending s = (\<Sum>p\<in>#mset (workers s). pending_of p)"

fun settled_of :: "event \<Rightarrow> (task \<times> outcome) option" where
  "settled_of (Created w t r) = Some (t, Resolved r)"
| "settled_of (RateLimited w t e) = Some (t, Rejected e)"
| "settled_of (Failed w t e) = Some (t, Rejected e)"
| "settled_of e = None"

definition settled :: "event list \<Rightarrow> (task \<times> outcome) list" where
  "settled lg = List.map_filter settled_of lg"

fun event_ok :: "guild \<Rightarrow> event \<Rightarrow> bool" where
  "event_ok g (Shift w t) = True"
| "event_ok g (Found w t r) = (cache_find g (name t) = Some r)"
| "event_ok g (Create w t) = notfound g t"
| "event_ok g (Created w t r) = notfound g t"
| "event_ok g (RateLimited w t e) = (notfound g t \<and> is_rate_limit e)"
| "event_ok g (Failed w t e) = (notfound g t \<and> \<not> is_rate_limit e)"
| "event_ok g (Delay w ms) = True"

fun pc_ok :: "guild \<Rightarrow> pc \<Rightarrow> bool" where
  "pc_ok g (AwaitCreate t out) = notfound g t"
| "pc_ok g (AwaitBackoff t) = notfound g t"
| "pc_ok g p = True"

fun responses_from :: "guild \<Rightarrow> task list \<Rightarrow> task list \<Rightarrow> (task \<times> outcome) list" where
  "responses_from g h [] = []"
| "responses_from g h (t # ts) = (t, roles_create g h t) # responses_from g (h @ [t]) ts"

definition responses :: "guild \<Rightarrow> task list \<Rightarrow> (task \<times> outcome) list" where
  "responses g ts = responses_from g [] ts"

definition ledger :: "guild \<Rightarrow> task list \<Rightarrow> state \<Rightarrow> bool" where
  "ledger g tasks s \<longleftrightarrow>
     shifted (log s) @ queue s = tasks
   \<and> createdRoles s = map snd (pushed (log s))
   \<and> mset (creates (log s)) + backoff s =
       filter_mset (notfound g) (mset (shifted (log s))) + mset (map fst (ratelimited (log s)))
   \<and> mset (map fst (pushed (log s))) + mset (map fst (failed (log s))) + inflight s =
       mset (shifted (log s))
   \<and> mset (settled (log s)) + pending s = mset (responses g (creates (log s)))
   \<and> (\<forall>e\<in>set (log s). event_ok g e)
   \<and> (\<forall>p\<in>set (workers s). pc_ok g p)
   \<and> (Finished \<in> set (workers s) \<longrightarrow> queue s = [])"

section \<open>The role creation queue on untyped values\<close>

text \<open>
  The model above gives the rejection of a request the type \<open>err\<close> and the number of
  workers the type \<open>nat\<close>. JavaScript does neither: \<^verbatim>\<open>guild.roles.create\<close> may reject with
  any value, and \<^verbatim>\<open>concurrency\<close> may be any number. This section repeats the function on
  such values, as far as the code can tell them apart; \<open>typed_call\<close> below shows that it is
  the function above wherever the catch block can classify every rejection and the count
  is a length an array can have.

  The value of \<^verbatim>\<open>err.message\<close>: \<^verbatim>\<open>undefined\<close> or \<^verbatim>\<open>null\<close>, where \<^verbatim>\<open>?.\<close> stops; a
  string; or a value that has no method \<^verbatim>\<open>includes\<close>, such as a number, where the call
  throws a TypeError. Values that bring a method of that name of their own, such as
  arrays, are left out.
\<close>

datatype message_value = Undefined | String string | NotString

text \<open>
  The value a request is rejected with: \<^verbatim>\<open>null\<close> or \<^verbatim>\<open>undefined\<close>, where reading
  \<^verbatim>\<open>err.code\<close> throws a TypeError, or any other value, of which the catch block reads
  three properties. \<open>js_code\<close> is \<^verbatim>\<open>err.code\<close> when it is an integer, \<open>js_retryAfter\<close> is
  \<^verbatim>\<open>err.retryAfter\<close>, a number, unless it is \<^verbatim>\<open>undefined\<close> or \<^verbatim>\<open>null\<close>.
\<close>

record js_err =
  js_code :: "int option"
  js_message :: message_value
  js_retryAfter :: "int option"

datatype thrown = Nullish | Object js_err

datatype js_outcome = Fulfilled role | RejectedWith thrown

record js_guild =
  js_cache :: "role list"
  js_create :: "task list \<Rightarrow> task \<Rightarrow> js_outcome"

text \<open>
  \<^verbatim>\<open>err.code === 30010 || err.message?.includes("Too Many Requests")\<close> on any value: the
  test throws or gives a truth value. \<^verbatim>\<open>||\<close> does not read the message when the code is
  30010.
\<close>

definition is_rate_limit_js :: "thrown \<Rightarrow> error + bool" where
  "is_rate_limit_js v =
     (case v of
        Nullish \<Rightarrow> Inl TypeError
      | Object e \<Rightarrow>
          if js_code e = Some 30010 then Inr True
          else (case js_message e of
                  Undefined \<Rightarrow> Inr False
                | String m \<Rightarrow> Inr (str_includes m ''Too Many Requests'')
                | NotString \<Rightarrow> Inl TypeError))"

text \<open>
  The three properties of a rejection value as an \<open>err\<close>, for the log and for
  \<^verbatim>\<open>err.retryAfter ?? 5000\<close>. The catch block gets this far only with a value that is not
  \<^verbatim>\<open>null\<close> or \<^verbatim>\<open>undefined\<close>.
\<close>

definition as_err :: "thrown \<Rightarrow> err" where
  "as_err v =
     (case v of
        Nullish \<Rightarrow> \<lparr>code = None, message = None, retryAfter = None\<rparr>
      | Object e \<Rightarrow>
          \<lparr>code = js_code e,
           message = (case js_message e of String m \<Rightarrow> Some m | _ \<Rightarrow> None),
           retryAfter = js_retryAfter e\<rparr>)"

datatype js_pc =
  JsAtLoop | JsAwaitCreate task js_outcome | JsAwaitPace | JsAwaitBackoff task | JsFinished

record js_state =
  js_queue :: "task list"
  js_createdRoles :: "role list"
  js_workers :: "js_pc list"
  js_log :: "event list"

text \<open>The outer loop of a worker, as \<open>worker_loop\<close>.\<close>

function worker_loop_js :: "js_guild \<Rightarrow> nat \<Rightarrow> js_state \<Rightarrow> error + js_state" where
  "worker_loop_js g w s =
     (if length (js_queue s) > 0 then
        (case shift (js_queue s) of
           (None, q) \<Rightarrow> Inl TypeError
         | (Some t, q) \<Rightarrow>
             (case find (\<lambda>r. role_name r = name t) (js_cache g) of
                Some r \<Rightarrow>
                  worker_loop_js g w
                    (s\<lparr>js_queue := q, js_createdRoles := js_createdRoles s @ [r],
                       js_log := js_log s @ [Shift w t, Found w t r]\<rparr>)
              | None \<Rightarrow>
                  Inr (s\<lparr>js_queue := q, js_log := js_log s @ [Shift w t, Create w t],
                         js_workers := (js_workers s)
                           [w := JsAwaitCreate t (js_create g (creates (js_log s)) t)]\<rparr>)))
      else Inr (s\<lparr>js_workers := (js_workers s)[w := JsFinished]\<rparr>))"
  by pat_completeness auto
termination
  by (relation "measure (\<lambda>(g, w, s). length (js_queue s))")
     (auto simp: shift_def split: list.splits)

declare worker_loop_js.simps [simp del]

text \<open>
  A worker continues after its \<^verbatim>\<open>await\<close>, as \<open>resume\<close>. The test of the catch block is
  not inside a \<^verbatim>\<open>try\<close> of its own, so when it throws, the worker's promise is rejected.
\<close>

definition resume_js :: "js_guild \<Rightarrow> nat \<Rightarrow> js_state \<Rightarrow> error + js_state" where
  "resume_js g w s =
     (case js_workers s ! w of
        JsAtLoop \<Rightarrow> worker_loop_js g w s
      | JsAwaitCreate t out \<Rightarrow>
          (case out of
             Fulfilled r \<Rightarrow>
               Inr (s\<lparr>js_createdRoles := js_createdRoles s @ [r],
                      js_log := js_log s @ [Created w t r, Delay w 300],
                      js_workers := (js_workers s)[w := JsAwaitPace]\<rparr>)
           | RejectedWith v \<Rightarrow>
               (case is_rate_limit_js v of
                  Inl e \<Rightarrow> Inl e
                | Inr limited \<Rightarrow>
                    if limited then
                      Inr (s\<lparr>js_log := js_log s
                               @ [RateLimited w t (as_err v), Delay w (waitTime (as_err v))],
                             js_workers := (js_workers s)[w := JsAwaitBackoff t]\<rparr>)
                    else worker_loop_js g w (s\<lparr>js_log := js_log s @ [Failed w t (as_err v)]\<rparr>)))
      | JsAwaitPace \<Rightarrow> worker_loop_js g w s
      | JsAwaitBackoff t \<Rightarrow>
          Inr (s\<lparr>js_log := js_log s @ [Create w t],
                 js_workers := (js_workers s)
                   [w := JsAwaitCreate t (js_create g (creates (js_log s)) t)]\<rparr>)
      | JsFinished \<Rightarrow> Inr s)"

definition enabled_js :: "nat \<Rightarrow> js_state \<Rightarrow> bool" where
  "enabled_js w s = (w < length (js_workers s) \<and> js_workers s ! w \<noteq> JsFinished)"

text \<open>
  A schedule, as for \<open>exec\<close>. \<^verbatim>\<open>Promise.all\<close> rejects as soon as one worker's promise is
  rejected, and with it the call.
\<close>

fun exec_js :: "js_guild \<Rightarrow> nat list \<Rightarrow> js_state \<Rightarrow> error + js_state" where
  "exec_js g [] s = Inr s"
| "exec_js g (w # ws) s =
     (if enabled_js w s then
        (case resume_js g w s of Inl e \<Rightarrow> Inl e | Inr s' \<Rightarrow> exec_js g ws s')
      else exec_js g ws s)"

definition init_js :: "task list \<Rightarrow> nat \<Rightarrow> js_state" where
  "init_js rolesData n =
     \<lparr>js_queue = rolesData, js_createdRoles = [], js_workers = replicate n JsAtLoop,
      js_log = []\<rparr>"

definition resolved_js :: "js_state \<Rightarrow> bool" where
  "resolved_js s = list_all (\<lambda>p. p = JsFinished) (js_workers s)"

text \<open>
  \<^verbatim>\<open>Array(concurrency)\<close> for a number: an array of that length when the number is whole and
  \<open>0 \<le> concurrency < 2\<^sup>3\<^sup>2\<close>, and a RangeError otherwise.
\<close>

definition array_length :: "rat \<Rightarrow> bool" where
  "array_length n = (of_int \<lfloor>n\<rfloor> = n \<and> 0 \<le> n \<and> n < 4294967296)"

text \<open>
  The call for any number \<^verbatim>\<open>concurrency\<close>. \<^verbatim>\<open>Array(concurrency)\<close> is evaluated in the body
  of the \<^verbatim>\<open>async\<close> function, so its RangeError rejects the call.
\<close>

definition run_js :: "js_guild \<Rightarrow> task list \<Rightarrow> rat \<Rightarrow> nat list \<Rightarrow> error + js_state" where
  "run_js g rolesData concurrency sched =
     (if array_length concurrency then
        exec_js g ([0 ..< nat \<lfloor>concurrency\<rfloor>] @ sched) (init_js rolesData (nat \<lfloor>concurrency\<rfloor>))
      else Inl RangeError)"

definition createRoleQueueConcurrent_js ::
    "js_guild \<Rightarrow> task list \<Rightarrow> rat \<Rightarrow> nat list \<Rightarrow> result" where
  "createRoleQueueConcurrent_js g rolesData concurrency sched =
     (case run_js g rolesData concurrency sched of
        Inl e \<Rightarrow> Raised e
      | Inr s \<Rightarrow> if resolved_js s then Returned (js_createdRoles s) else Pending)"

text \<open>
  The rejections the catch block can classify: the value is not \<^verbatim>\<open>null\<close> or
  \<^verbatim>\<open>undefined\<close>, and its message is a string or missing unless its code is 30010.
\<close>

definition classifiable :: "thrown \<Rightarrow> bool" where
  "classifiable v =
     (case v of Nullish \<Rightarrow> False
      | Object e \<Rightarrow> js_code e = Some 30010 \<or> js_message e \<noteq> NotString)"

definition classifiable_guild :: "js_guild \<Rightarrow> bool" where
  "classifiable_guild g = (\<forall>h t v. js_create g h t = RejectedWith v \<longrightarrow> classifiable v)"

text \<open>A guild, a worker and a state of this section read in the types of the model above.\<close>

definition typed_outcome :: "js_outcome \<Rightarrow> outcome" where
  "typed_outcome out =
     (case out of Fulfilled r \<Rightarrow> Resolved r | RejectedWith v \<Rightarrow> Rejected (as_err v))"

definition typed_guild :: "js_guild \<Rightarrow> guild" where
  "typed_guild g =
     \<lparr>roles_cache = js_cache g, roles_create = (\<lambda>h t. typed_outcome (js_create g h t))\<rparr>"

fun typed_pc :: "js_pc \<Rightarrow> pc" where
  "typed_pc JsAtLoop = AtLoop"
| "typed_pc (JsAwaitCreate t out) = AwaitCreate t (typed_outcome out)"
| "typed_pc JsAwaitPace = AwaitPace"
| "typed_pc (JsAwaitBackoff t) = AwaitBackoff t"
| "typed_pc JsFinished = Finished"

definition typed_state :: "js_state \<Rightarrow> state" where
  "typed_state s =
     \<lparr>queue = js_queue s, createdRoles = js_createdRoles s,
      workers = map typed_pc (js_workers s), log = js_log s\<rparr>"

definition typed_end :: "error + js_state \<Rightarrow> error + state" where
  "typed_end x = (case x of Inl e \<Rightarrow> Inl e | Inr s \<Rightarrow> Inr (typed_state s))"

text \<open>A worker whose open request, if it is rejected, is rejected with such a value.\<close>

fun settles :: "js_pc \<Rightarrow> bool" where
  "settles (JsAwaitCreate t (RejectedWith v)) = classifiable v"
| "settles p = True"

section \<open>Rate limits and termination\<close>

text \<open>
  An answer of \<^verbatim>\<open>create\<close> is a rate limit when it is an error the catch block
  classifies so. \<open>bounded_retry g b\<close>: the guild answers a request for \<open>t\<close> with a rate
  limit only while fewer than \<open>b t\<close> requests for \<open>t\<close> were made before, so each task is
  rate limited finitely often. \<open>always_limited g t\<close>: every answer to a request for
  \<open>t\<close> is a rate limit.
\<close>

definition rate_limited :: "outcome \<Rightarrow> bool" where
  "rate_limited out = (case out of Resolved r \<Rightarrow> False | Rejected e \<Rightarrow> is_rate_limit e)"

definition bounded_retry :: "guild \<Rightarrow> (task \<Rightarrow> nat) \<Rightarrow> bool" where
  "bounded_retry g b = (\<forall>h t. rate_limited (roles_create g h t) \<longrightarrow> count_list h t < b t)"

definition always_limited :: "guild \<Rightarrow> task \<Rightarrow> bool" where
  "always_limited g t = (\<forall>h. rate_limited (roles_create g h t))"

fun weight :: "pc \<Rightarrow> nat" where
  "weight AtLoop = 1"
| "weight (AwaitCreate t out) = (if rate_limited out then 4 else 2)"
| "weight AwaitPace = 1"
| "weight (AwaitBackoff t) = 3"
| "weight Finished = 0"

definition budget :: "(task \<Rightarrow> nat) \<Rightarrow> task list \<Rightarrow> task list \<Rightarrow> nat" where
  "budget b tasks h = (\<Sum>t\<in>set tasks. b t - count_list h t)"

definition potential :: "(task \<Rightarrow> nat) \<Rightarrow> task list \<Rightarrow> state \<Rightarrow> nat" where
  "potential b tasks s =
     2 * length (queue s) + (\<Sum>p\<in>#mset (workers s). weight p)
     + 2 * budget b tasks (creates (log s))"

text \<open>
  \<open>steps g tasks k\<close> relates a state a run of the call reaches to each state a worker's
  continuation leads to from it, the later state first: it is well-founded exactly when no
  run goes on forever. \<open>potential\<close> bounds the continuations left.
\<close>

definition steps :: "guild \<Rightarrow> task list \<Rightarrow> nat \<Rightarrow> (state \<times> state) set" where
  "steps g tasks k =
     {(s', s). (\<exists>sched. run g tasks k sched = Inr s) \<and> (\<exists>w. enabled w s \<and> resume g w s = Inr s')}"

section \<open>The protocol of a worker\<close>

fun worker_of :: "event \<Rightarrow> nat" where
  "worker_of (Shift w t) = w"
| "worker_of (Found w t r) = w"
| "worker_of (Create w t) = w"
| "worker_of (Created w t r) = w"
| "worker_of (RateLimited w t e) = w"
| "worker_of (Failed w t e) = w"
| "worker_of (Delay w ms) = w"

definition by_worker :: "nat \<Rightarrow> event list \<Rightarrow> event list" where
  "by_worker w lg = filter (\<lambda>e. worker_of e = w) lg"






section \<open>Guilds that answer by task\<close>

text \<open>
  \<open>answers_by g key f\<close>: the guild's answer to a request is \<open>f\<close> of the key of the task
  and of the number of earlier requests with the same key. With \<open>key = id\<close> the answer
  depends on the task and on how often that task was requested before; with a constant key
  it depends on the number of requests made so far.
\<close>

definition answers_by :: "guild \<Rightarrow> (task \<Rightarrow> 'k) \<Rightarrow> ('k \<Rightarrow> nat \<Rightarrow> outcome) \<Rightarrow> bool" where
  "answers_by g key f =
     (\<forall>h t. roles_create g h t = f (key t) (count_list (map key h) (key t)))"

text \<open>An answer is permanent when it is an error that is no rate limit, terminal when it
  is no rate limit: after a terminal answer the worker leaves the task.\<close>

definition permanent :: "outcome \<Rightarrow> bool" where
  "permanent out = (case out of Resolved r \<Rightarrow> False | Rejected e \<Rightarrow> \<not> is_rate_limit e)"

definition terminal :: "outcome \<Rightarrow> bool" where
  "terminal out = (\<not> rate_limited out)"

section \<open>The retry loop of one task\<close>


text \<open>The entries of a list that belong to one task, and the rate-limit errors caught for
  a task, in the order of the log.\<close>

definition for_task :: "task \<Rightarrow> (task \<times> 'a) list \<Rightarrow> (task \<times> 'a) list" where
  "for_task t xs = filter (\<lambda>x. fst x = t) xs"

definition retries :: "task \<Rightarrow> event list \<Rightarrow> err list" where
  "retries t lg = map snd (for_task t (ratelimited lg))"



text \<open>
  A task whose every request is rate limited stays in the queue or in the hands of a
  worker for ever.
\<close>

definition starved :: "guild \<Rightarrow> task \<Rightarrow> state \<Rightarrow> bool" where
  "starved g t s \<longleftrightarrow>
     (\<forall>p\<in>set (workers s). \<forall>out. p = AwaitCreate t out \<longrightarrow> rate_limited out)
   \<and> (t \<in> set (queue s) \<or> t \<in># inflight s)"

section \<open>The role creation queue with a clock\<close>

text \<open>
  \<^verbatim>\<open>
  function delay(ms) {
    return new Promise((resolve) => setTimeout(resolve, ms));
  }
  \<close>
  The promise of \<^verbatim>\<open>delay(ms)\<close> is resolved by a timer, so a worker that awaits it does not
  continue before \<open>ms\<close> milliseconds have passed; a negative \<open>ms\<close> counts as zero.
  \<open>pause_of\<close> is the time a call of \<^verbatim>\<open>delay\<close> asks for. A step of a worker that ends in a
  call of \<^verbatim>\<open>delay\<close> leaves the worker in \<^verbatim>\<open>await delay(ms)\<close>: \<open>sleep_of\<close> is the time such
  a step puts the worker to sleep for, and zero for a step that ends in anything else (an
  open request settles whenever the guild answers).
\<close>

fun pause_of :: "event \<Rightarrow> int" where
  "pause_of (Delay w ms) = max 0 ms"
| "pause_of e = 0"

definition sleep_of :: "event list \<Rightarrow> int" where
  "sleep_of c = (if c = [] then 0 else pause_of (last c))"

text \<open>
  The clock of a run, in milliseconds: the time \<open>now\<close>, for each worker the time \<open>wake\<close>
  before which its timer does not fire, and the log with the time of each event.
\<close>

record clock =
  now :: int
  wake :: "int list"
  tlog :: "(int \<times> event) list"

text \<open>
  A timed schedule names, step by step, how many milliseconds pass and which worker is
  then offered to continue. The worker continues, as in \<open>exec\<close>, when it is suspended and
  its timer has fired; otherwise the entry only lets the time pass. The events of a step
  are the ones it appends to the log, and all of them happen at the time of the step.
\<close>

fun texec :: "guild \<Rightarrow> (nat \<times> nat) list \<Rightarrow> state \<times> clock \<Rightarrow> error + state \<times> clock" where
  "texec g [] sc = Inr sc"
| "texec g ((w, dt) # ts) (s, c) =
     (let t = now c + int dt in
      if enabled w s \<and> wake c ! w \<le> t then
        (case resume g w s of
           Inl e \<Rightarrow> Inl e
         | Inr s' \<Rightarrow>
             (let new = drop (length (log s)) (log s') in
              texec g ts
                (s', \<lparr>now = t, wake = (wake c)[w := t + sleep_of new],
                      tlog = tlog c @ map (Pair t) new\<rparr>)))
      else texec g ts (s, c\<lparr>now := t\<rparr>))"

text \<open>
  The call on the clock: \<^verbatim>\<open>map\<close> starts the workers at time 0, one after the other with
  no time between them; after that the timed schedule decides.
\<close>

definition start :: "nat \<Rightarrow> clock" where
  "start concurrency = \<lparr>now = 0, wake = replicate concurrency 0, tlog = []\<rparr>"

definition trun ::
    "guild \<Rightarrow> task list \<Rightarrow> nat \<Rightarrow> (nat \<times> nat) list \<Rightarrow> error + state \<times> clock" where
  "trun g rolesData concurrency ts =
     texec g (map (\<lambda>w. (w, 0)) [0 ..< concurrency] @ ts)
       (init rolesData concurrency, start concurrency)"






section \<open>Example inputs\<close>

definition red :: task where
  "red = \<lparr>name = ''Red'', color = ''#ff0000'', emoji = None\<rparr>"

definition blue :: task where
  "blue = \<lparr>name = ''Blue'', color = ''#0000ff'', emoji = None\<rparr>"

definition red_role :: role where
  "red_role = \<lparr>role_id = ''1'', role_name = ''Red''\<rparr>"

definition blue_role :: role where
  "blue_role = \<lparr>role_id = ''2'', role_name = ''Blue''\<rparr>"

text \<open>A guild that holds both roles already; its requests are never reached.\<close>

definition full_guild :: guild where
  "full_guild =
     \<lparr>roles_cache = [red_role, blue_role],
      roles_create = (\<lambda>h t. Rejected \<lparr>code = None, message = None, retryAfter = None\<rparr>)\<rparr>"


text \<open>A guild with no roles whose first request for each task is rate limited.\<close>

definition slow_down :: err where
  "slow_down = \<lparr>code = Some 30010, message = None, retryAfter = Some 1000\<rparr>"

definition made :: "task \<Rightarrow> role" where
  "made t = \<lparr>role_id = name t, role_name = name t\<rparr>"

definition flaky_guild :: guild where
  "flaky_guild =
     \<lparr>roles_cache = [],
      roles_create = (\<lambda>h t. if count_list h t = 0 then Rejected slow_down else Resolved (made t))\<rparr>"

text \<open>A guild that holds the red role only and creates every role asked for.\<close>

definition half_guild :: guild where
  "half_guild = \<lparr>roles_cache = [red_role], roles_create = (\<lambda>h t. Resolved (made t))\<rparr>"

text \<open>A guild with no roles that refuses to create the red role.\<close>

definition forbidden :: err where
  "forbidden = \<lparr>code = Some 50013, message = Some ''Missing Permissions'', retryAfter = None\<rparr>"

definition broken_guild :: guild where
  "broken_guild =
     \<lparr>roles_cache = [],
      roles_create = (\<lambda>h t. if name t = ''Red'' then Rejected forbidden else Resolved (made t))\<rparr>"

text \<open>A guild with no roles that answers every request with a rate limit.\<close>

definition jam_guild :: guild where
  "jam_guild = \<lparr>roles_cache = [], roles_create = (\<lambda>h t. Rejected slow_down)\<rparr>"

text \<open>
  A guild with no roles whose answer depends on the order of all requests: the first
  request is rate limited, and the second request is refused when it is for the red role.
\<close>

definition order_guild :: guild where
  "order_guild =
     \<lparr>roles_cache = [],
      roles_create = (\<lambda>h t. if h = [] then Rejected slow_down
                             else if length h = 1 \<and> name t = ''Red'' then Rejected forbidden
                             else Resolved (made t))\<rparr>"

text \<open>The answers of \<open>flaky_guild\<close> as a function of the task and its earlier requests.\<close>

definition flaky_answer :: "task \<Rightarrow> nat \<Rightarrow> outcome" where
  "flaky_answer t n = (if n = 0 then Rejected slow_down else Resolved (made t))"

text \<open>The states the example runs end in.\<close>

definition end_of :: "error + state \<Rightarrow> state" where
  "end_of x = (case x of Inl e \<Rightarrow> init [] 0 | Inr s \<Rightarrow> s)"

definition flaky_end :: state where
  "flaky_end = end_of (run flaky_guild [red, blue] 2 [0, 1, 0, 1, 0, 1, 0, 1])"

definition half_end :: state where
  "half_end = end_of (run half_guild [red, blue] 2 [0, 0])"

definition broken_end :: state where
  "broken_end = end_of (run broken_guild [red, blue] 1 [0, 0, 0])"










text \<open>
  Guilds with no roles whose \<^verbatim>\<open>create\<close> rejects the red role with \<^verbatim>\<open>null\<close>, with an object
  whose message is not a string, and with the error \<open>forbidden\<close>; each creates any
  other role.
\<close>

definition null_guild :: js_guild where
  "null_guild =
     \<lparr>js_cache = [],
      js_create = (\<lambda>h t. if name t = ''Red'' then RejectedWith Nullish else Fulfilled (made t))\<rparr>"

definition odd_guild :: js_guild where
  "odd_guild =
     \<lparr>js_cache = [],
      js_create = (\<lambda>h t. if name t = ''Red''
                          then RejectedWith
                                 (Object \<lparr>js_code = Some 500, js_message = NotString,
                                          js_retryAfter = None\<rparr>)
                          else Fulfilled (made t))\<rparr>"

definition strict_guild :: js_guild where
  "strict_guild =
     \<lparr>js_cache = [],
      js_create = (\<lambda>h t. if name t = ''Red''
                          then RejectedWith
                                 (Object \<lparr>js_code = Some 50013,
                                          js_message = String ''Missing Permissions'',
                                          js_retryAfter = None\<rparr>)
                          else Fulfilled (made t))\<rparr>"




section \<open>The role creation queue: one step\<close>

lemma map_filter_append: "List.map_filter f (xs @ ys) = List.map_filter f xs @ List.map_filter f ys"
  by (simp add: List.map_filter_def)

lemma creates_append: "creates (xs @ ys) = creates xs @ creates ys"
  by (induction xs rule: creates.induct) simp_all

lemma pushed_simps:
  "pushed [] = []"
  "pushed (Shift w t # es) = pushed es"
  "pushed (Found w t r # es) = (t, r) # pushed es"
  "pushed (Create w t # es) = pushed es"
  "pushed (Created w t r # es) = (t, r) # pushed es"
  "pushed (RateLimited w t e # es) = pushed es"
  "pushed (Failed w t e # es) = pushed es"
  "pushed (Delay w ms # es) = pushed es"
  by (simp_all add: pushed_def List.map_filter_simps)

lemma worker_loop_commit:
  "creates (log s) = h \<Longrightarrow> worker_loop g w s = Inr (commit w (loop_chunk g w h (queue s)) s)"
proof (induction g w s rule: worker_loop.induct)
  case (1 g w s)
  show ?case
  proof (cases "queue s")
    case Nil
    then show ?thesis
      by (subst worker_loop.simps) (simp add: commit_def pushed_simps)
  next
    case (Cons t q)
    show ?thesis
    proof (cases "cache_find g (name t)")
      case None
      with Cons "1.prems" show ?thesis
        by (subst worker_loop.simps) (simp add: commit_def pushed_simps shift_def)
    next
      case (Some r)
      let ?s = "s\<lparr>queue := q, createdRoles := createdRoles s @ [r],
                     log := log s @ [Shift w t, Found w t r]\<rparr>"
      have "creates (log ?s) = h" using "1.prems" by (simp add: creates_append)
      with "1.IH" [of "Some t" q t r] Cons Some
      have "worker_loop g w ?s = Inr (commit w (loop_chunk g w h (queue ?s)) ?s)"
        by (simp add: shift_def)
      with Cons Some show ?thesis
        by (subst worker_loop.simps)
           (simp add: commit_def pushed_simps shift_def split: prod.splits)
    qed
  qed
qed

lemma resume_commit:
  "resume g w s = Inr (commit w (effect g w (creates (log s)) (queue s) (workers s ! w)) s)"
proof (cases "workers s ! w")
  case (AwaitCreate t out)
  show ?thesis
  proof (cases out)
    case (Resolved r)
    with AwaitCreate show ?thesis
      by (simp add: resume_def effect_def commit_def pushed_simps)
  next
    case (Rejected e)
    show ?thesis
    proof (cases "is_rate_limit e")
      case True
      with AwaitCreate Rejected show ?thesis
        by (simp add: resume_def effect_def commit_def pushed_simps)
    next
      case False
      have "worker_loop g w (s\<lparr>log := log s @ [Failed w t e]\<rparr>) =
        Inr (commit w (loop_chunk g w (creates (log s)) (queue s)) (s\<lparr>log := log s @ [Failed w t e]\<rparr>))"
        using worker_loop_commit [of "s\<lparr>log := log s @ [Failed w t e]\<rparr>" "creates (log s)" g w]
        by (simp add: creates_append)
      with AwaitCreate Rejected False show ?thesis
        by (simp add: resume_def effect_def commit_def pushed_simps split: prod.splits)
    qed
  qed
next
  case Finished
  then have "(workers s)[w := Finished] = workers s"
    by (metis list_update_id)
  with Finished show ?thesis
    by (simp add: resume_def effect_def commit_def pushed_simps)
qed (simp_all add: resume_def effect_def commit_def pushed_simps worker_loop_commit)


lemma shifted_simps:
  "shifted [] = []"
  "shifted (Shift w t # es) = t # shifted es"
  "shifted (Found w t r # es) = shifted es"
  "shifted (Create w t # es) = shifted es"
  "shifted (Created w t r # es) = shifted es"
  "shifted (RateLimited w t e # es) = shifted es"
  "shifted (Failed w t e # es) = shifted es"
  "shifted (Delay w ms # es) = shifted es"
  by (simp_all add: shifted_def List.map_filter_simps)

lemma ratelimited_simps:
  "ratelimited [] = []"
  "ratelimited (Shift w t # es) = ratelimited es"
  "ratelimited (Found w t r # es) = ratelimited es"
  "ratelimited (Create w t # es) = ratelimited es"
  "ratelimited (Created w t r # es) = ratelimited es"
  "ratelimited (RateLimited w t e # es) = (t, e) # ratelimited es"
  "ratelimited (Failed w t e # es) = ratelimited es"
  "ratelimited (Delay w ms # es) = ratelimited es"
  by (simp_all add: ratelimited_def List.map_filter_simps)

lemma failed_simps:
  "failed [] = []"
  "failed (Shift w t # es) = failed es"
  "failed (Found w t r # es) = failed es"
  "failed (Create w t # es) = failed es"
  "failed (Created w t r # es) = failed es"
  "failed (RateLimited w t e # es) = failed es"
  "failed (Failed w t e # es) = (t, e) # failed es"
  "failed (Delay w ms # es) = failed es"
  by (simp_all add: failed_def List.map_filter_simps)

lemmas log_simps = shifted_simps pushed_simps ratelimited_simps failed_simps

lemma shifted_append: "shifted (xs @ ys) = shifted xs @ shifted ys"
  by (simp add: shifted_def map_filter_append)

lemma pushed_append: "pushed (xs @ ys) = pushed xs @ pushed ys"
  by (simp add: pushed_def map_filter_append)

lemma ratelimited_append: "ratelimited (xs @ ys) = ratelimited xs @ ratelimited ys"
  by (simp add: ratelimited_def map_filter_append)

lemma failed_append: "failed (xs @ ys) = failed xs @ failed ys"
  by (simp add: failed_def map_filter_append)

lemmas log_append = shifted_append pushed_append ratelimited_append failed_append creates_append

text \<open>The fields of the state after a step.\<close>

lemma commit_fields:
  "queue (commit w (c, p, q) s) = q"
  "createdRoles (commit w (c, p, q) s) = createdRoles s @ map snd (pushed c)"
  "log (commit w (c, p, q) s) = log s @ c"
  "workers (commit w (c, p, q) s) = (workers s)[w := p]"
  by (simp_all add: commit_def)

lemma exec_never_raises: "\<exists>s'. exec g sched s = Inr s'"
  by (induction sched arbitrary: s) (simp_all add: resume_commit)

lemma exec_induct [consumes 2, case_names step]:
  assumes "exec g sched s = Inr s'" and "I s"
    and "\<And>w s c p q. I s \<Longrightarrow> enabled w s \<Longrightarrow>
           effect g w (creates (log s)) (queue s) (workers s ! w) = (c, p, q) \<Longrightarrow>
           I (commit w (c, p, q) s)"
  shows "I s'"
  using assms(1,2)
proof (induction sched arbitrary: s)
  case Nil
  then show ?case by simp
next
  case (Cons w ws)
  show ?case
  proof (cases "enabled w s")
    case True
    obtain c p q where e: "effect g w (creates (log s)) (queue s) (workers s ! w) = (c, p, q)"
      by (cases "effect g w (creates (log s)) (queue s) (workers s ! w)") auto
    have "I (commit w (c, p, q) s)"
      using Cons.prems(2) True e by (rule assms(3))
    moreover have "exec g ws (commit w (c, p, q) s) = Inr s'"
      using Cons.prems(1) True e by (simp add: resume_commit)
    ultimately show ?thesis by (rule Cons.IH [rotated])
  next
    case False
    with Cons show ?thesis by simp
  qed
qed

text \<open>The multiset of worker states changes in one place.\<close>

lemma mset_workers_step:
  assumes "enabled w s"
  shows "\<exists>R. mset (workers s) = add_mset (workers s ! w) R
           \<and> (\<forall>p. mset ((workers s)[w := p]) = add_mset p R)"
proof -
  have w: "w < length (workers s)" using assms by (simp add: enabled_def)
  let ?R = "mset (workers s) - {#workers s ! w#}"
  have "workers s ! w \<in># mset (workers s)" using w by simp
  then have "mset (workers s) = add_mset (workers s ! w) ?R" by simp
  moreover have "\<forall>p. mset ((workers s)[w := p]) = add_mset p ?R"
    using w by (simp add: mset_update)
  ultimately show ?thesis by blast
qed

subsection \<open>What one pass of the loop does\<close>

lemma loop_chunk_shifted:
  "loop_chunk g w h q = (c, p, q') \<Longrightarrow> q = shifted c @ q'"
  by (induction q arbitrary: c p q')
     (auto simp: log_simps split: option.splits prod.splits)

lemma effect_shifted:
  "effect g w h q p = (c, p', q') \<Longrightarrow> q = shifted c @ q'"
  by (auto simp: effect_def log_simps split: pc.splits outcome.splits if_splits prod.splits
      dest: loop_chunk_shifted)

lemma loop_chunk_finished:
  "loop_chunk g w h q = (c, p, q') \<Longrightarrow> p = Finished \<Longrightarrow> q' = []"
  by (induction q arbitrary: c p q')
     (auto split: option.splits prod.splits)

lemma effect_finished:
  "effect g w h q p = (c, p', q') \<Longrightarrow> p \<noteq> Finished \<Longrightarrow> p' = Finished \<Longrightarrow> q' = []"
  by (auto simp: effect_def split: pc.splits outcome.splits if_splits prod.splits
      dest: loop_chunk_finished)

subsection \<open>The workers of a run\<close>

lemma exec_length_workers:
  assumes "exec g sched s = Inr s'"
  shows "length (workers s') = length (workers s)"
proof -
  have "length (workers s) = length (workers s)" by simp
  with assms show ?thesis
    by (induction rule: exec_induct [where I = "\<lambda>x. length (workers x) = length (workers s)"])
       (simp add: commit_fields)
qed

section \<open>The ledger is an invariant\<close>

lemma settled_simps:
  "settled [] = []"
  "settled (Shift w t # es) = settled es"
  "settled (Found w t r # es) = settled es"
  "settled (Create w t # es) = settled es"
  "settled (Created w t r # es) = (t, Resolved r) # settled es"
  "settled (RateLimited w t e # es) = (t, Rejected e) # settled es"
  "settled (Failed w t e # es) = (t, Rejected e) # settled es"
  "settled (Delay w ms # es) = settled es"
  by (simp_all add: settled_def List.map_filter_simps)

lemma settled_append: "settled (xs @ ys) = settled xs @ settled ys"
  by (simp add: settled_def map_filter_append)

lemma loop_chunk_ledger:
  assumes "loop_chunk g w h q = (c, p, q')"
  shows "ratelimited c = []" and "failed c = []" and "settled c = []"
    and "mset (creates c) = inflight_of p" and "backoff_of p = {#}"
    and "filter_mset (notfound g) (mset (shifted c)) = inflight_of p"
    and "mset (shifted c) = mset (map fst (pushed c)) + inflight_of p"
    and "pending_of p = mset (map (\<lambda>t. (t, roles_create g h t)) (creates c))"
    and "\<forall>e\<in>set c. event_ok g e" and "pc_ok g p"
  using assms
  by (induction q arbitrary: c p q';
      auto simp: log_simps settled_simps notfound_def split: option.splits prod.splits)+

lemma effect_creates:
  assumes "effect g w h q p = (c, p', q')"
  shows "mset (creates c) + backoff_of p' =
           filter_mset (notfound g) (mset (shifted c)) + mset (map fst (ratelimited c))
           + backoff_of p"
  using assms
  by (auto simp: effect_def log_simps loop_chunk_ledger(1,4,5,6)
      split: pc.splits outcome.splits if_splits prod.splits)

lemma effect_shifts:
  assumes "effect g w h q p = (c, p', q')"
  shows "mset (shifted c) + inflight_of p =
           mset (map fst (pushed c)) + mset (map fst (failed c)) + inflight_of p'"
  using assms
  by (auto simp: effect_def log_simps loop_chunk_ledger(2,7)
      split: pc.splits outcome.splits if_splits prod.splits)

lemma effect_settled:
  assumes "effect g w h q p = (c, p', q')"
  shows "mset (map (\<lambda>t. (t, roles_create g h t)) (creates c)) + pending_of p =
           mset (settled c) + pending_of p'"
  using assms
  by (auto simp: effect_def log_simps settled_simps loop_chunk_ledger(3,8)
      split: pc.splits outcome.splits if_splits prod.splits)

lemma effect_ok:
  assumes "effect g w h q p = (c, p', q')" and "pc_ok g p"
  shows "(\<forall>e\<in>set c. event_ok g e) \<and> pc_ok g p'"
  using assms
  by (auto simp: effect_def loop_chunk_ledger(9,10)
      split: pc.splits outcome.splits if_splits prod.splits)


lemma balance:
  fixes A :: "'a multiset"
  assumes "A + (b + S) = F" and "C + b' = G + b"
  shows "(A + C) + (b' + S) = F + G"
proof -
  have "(A + C) + (b' + S) = (A + S) + (C + b')" by (simp add: ac_simps)
  also have "\<dots> = (A + S) + (G + b)" by (simp only: assms(2))
  also have "\<dots> = (A + (b + S)) + G" by (simp add: ac_simps)
  also have "\<dots> = F + G" by (simp only: assms(1))
  finally show ?thesis .
qed

lemma loop_chunk_one_create:
  "loop_chunk g w h q = (c, p, q') \<Longrightarrow> length (creates c) \<le> 1"
  by (induction q arbitrary: c p q') (auto split: option.splits prod.splits)

lemma effect_one_create:
  "effect g w h q p = (c, p', q') \<Longrightarrow> length (creates c) \<le> 1"
  by (auto simp: effect_def split: pc.splits outcome.splits if_splits prod.splits
      dest: loop_chunk_one_create)

lemma responses_from_append:
  "responses_from g h (xs @ ys) = responses_from g h xs @ responses_from g (h @ xs) ys"
  by (induction xs arbitrary: h) simp_all

lemma responses_step:
  assumes "length ts \<le> 1"
  shows "responses g (h @ ts) = responses g h @ map (\<lambda>t. (t, roles_create g h t)) ts"
proof (cases ts)
  case Nil
  then show ?thesis by simp
next
  case (Cons t ts')
  with assms have "ts = [t]" by simp
  then show ?thesis by (simp add: responses_def responses_from_append)
qed

lemma ledger_init: "ledger g tasks (init tasks k)"
  by (simp add: ledger_def init_def log_simps settled_simps backoff_def inflight_def
      pending_def responses_def)

lemma ledger_step:
  assumes l: "ledger g tasks s" and en: "enabled w s"
    and ef: "effect g w (creates (log s)) (queue s) (workers s ! w) = (c, p, q)"
  shows "ledger g tasks (commit w (c, p, q) s)"
proof -
  let ?s' = "commit w (c, p, q) s"
  let ?p = "workers s ! w"
  let ?h = "creates (log s)"
  obtain R where R: "mset (workers s) = add_mset ?p R"
    "\<And>x. mset ((workers s)[w := x]) = add_mset x R"
    using mset_workers_step [OF en] by blast
  have w: "w < length (workers s)" "?p \<noteq> Finished" using en by (simp_all add: enabled_def)
  have ok: "pc_ok g ?p" using l w(1) by (simp add: ledger_def)
  have q: "queue s = shifted c @ q" using ef by (rule effect_shifted)
  have i1: "shifted (log ?s') @ queue ?s' = tasks"
    using l q by (simp add: ledger_def commit_fields log_append)
  have i2: "createdRoles ?s' = map snd (pushed (log ?s'))"
    using l by (simp add: ledger_def commit_fields log_append)
  have i3: "mset (creates (log ?s')) + backoff ?s' =
       filter_mset (notfound g) (mset (shifted (log ?s'))) + mset (map fst (ratelimited (log ?s')))"
  proof -
    have a: "mset (creates (log s)) + (backoff_of ?p + (\<Sum>x\<in>#R. backoff_of x)) =
       filter_mset (notfound g) (mset (shifted (log s))) + mset (map fst (ratelimited (log s)))"
      using l by (simp add: ledger_def backoff_def R(1))
    have b: "mset (creates c) + backoff_of p =
       (filter_mset (notfound g) (mset (shifted c)) + mset (map fst (ratelimited c))) + backoff_of ?p"
      using effect_creates [OF ef] by simp
    from balance [OF a b] show ?thesis
      by (simp add: commit_fields log_append backoff_def R(2) ac_simps)
  qed
  have i4: "mset (map fst (pushed (log ?s'))) + mset (map fst (failed (log ?s'))) + inflight ?s' =
       mset (shifted (log ?s'))"
  proof -
    have a: "(mset (map fst (pushed (log s))) + mset (map fst (failed (log s))))
        + (inflight_of ?p + (\<Sum>x\<in>#R. inflight_of x)) = mset (shifted (log s))"
      using l by (simp add: ledger_def inflight_def R(1))
    have b: "(mset (map fst (pushed c)) + mset (map fst (failed c))) + inflight_of p =
       mset (shifted c) + inflight_of ?p"
      using effect_shifts [OF ef] by simp
    from balance [OF a b] show ?thesis
      by (simp add: commit_fields log_append inflight_def R(2) ac_simps)
  qed
  have i5: "mset (settled (log ?s')) + pending ?s' = mset (responses g (creates (log ?s')))"
  proof -
    have a: "mset (settled (log s)) + (pending_of ?p + (\<Sum>x\<in>#R. pending_of x)) =
        mset (responses g ?h)"
      using l by (simp add: ledger_def pending_def R(1))
    have b: "mset (settled c) + pending_of p =
       mset (map (\<lambda>t. (t, roles_create g ?h t)) (creates c)) + pending_of ?p"
      using effect_settled [OF ef] by simp
    have "responses g (?h @ creates c) =
        responses g ?h @ map (\<lambda>t. (t, roles_create g ?h t)) (creates c)"
      using effect_one_create [OF ef] by (rule responses_step)
    with balance [OF a b] show ?thesis
      by (simp add: commit_fields log_append settled_append pending_def R(2) ac_simps)
  qed
  have i6: "\<forall>e\<in>set (log ?s'). event_ok g e"
    using l effect_ok [OF ef ok] by (auto simp: ledger_def commit_fields)
  have i7: "\<forall>x\<in>set (workers ?s'). pc_ok g x"
  proof -
    have "set ((workers s)[w := p]) \<subseteq> insert p (set (workers s))"
      by (rule set_update_subset_insert)
    with l effect_ok [OF ef ok] show ?thesis
      by (auto simp: ledger_def commit_fields)
  qed
  have i8: "Finished \<in> set (workers ?s') \<longrightarrow> queue ?s' = []"
  proof
    assume "Finished \<in> set (workers ?s')"
    then have "Finished \<in> set ((workers s)[w := p])" by (simp add: commit_fields)
    then have "p = Finished \<or> Finished \<in> set (workers s)"
      using set_update_subset_insert [of "workers s" w p] by auto
    then show "queue ?s' = []"
    proof
      assume "p = Finished"
      with ef w(2) show ?thesis by (simp add: commit_fields effect_finished)
    next
      assume "Finished \<in> set (workers s)"
      with l q show ?thesis by (simp add: ledger_def commit_fields)
    qed
  qed
  from i1 i2 i3 i4 i5 i6 i7 i8 show ?thesis
    unfolding ledger_def by (intro conjI)
qed

lemma exec_ledger:
  assumes "exec g sched s = Inr s'" and "ledger g tasks s"
  shows "ledger g tasks s'"
  using assms
  by (induction rule: exec_induct) (rule ledger_step)

lemma run_ledger:
  assumes "run g tasks k sched = Inr s"
  shows "ledger g tasks s" and "length (workers s) = k"
proof -
  from assms have e: "exec g ([0 ..< k] @ sched) (init tasks k) = Inr s"
    by (simp add: run_def)
  from e ledger_init show "ledger g tasks s" by (rule exec_ledger)
  from exec_length_workers [OF e] show "length (workers s) = k" by (simp add: init_def)
qed

lemma count_image_list:
  "count (image_mset f (mset xs)) t = count_list (map f xs) t"
  by (simp only: mset_map [symmetric] count_mset)

lemma count_absent:
  "t \<notin> f ` set xs \<Longrightarrow> count (image_mset f (mset xs)) t = 0"
  by (metis count_image_list count_list_0_iff set_map)

lemma sum_mset_idle:
  assumes "\<forall>p\<in>set ps. f p = ({#} :: 'a multiset)"
  shows "(\<Sum>p\<in>#mset ps. f p) = {#}"
  using assms by (induction ps) simp_all

lemma resolved_idle:
  assumes "resolved s"
  shows "inflight s = {#}" and "backoff s = {#}" and "pending s = {#}"
proof -
  have f: "\<forall>p\<in>set (workers s). p = Finished"
    using assms by (simp add: resolved_def list_all_iff)
  show "inflight s = {#}" unfolding inflight_def using f by (intro sum_mset_idle) auto
  show "backoff s = {#}" unfolding backoff_def using f by (intro sum_mset_idle) auto
  show "pending s = {#}" unfolding pending_def using f by (intro sum_mset_idle) auto
qed

lemma resolved_queue_empty:
  assumes "run g tasks k sched = Inr s" and "resolved s" and "1 \<le> k"
  shows "queue s = []"
proof -
  have l: "ledger g tasks s" and n: "length (workers s) = k"
    using assms(1) by (rule run_ledger)+
  from n assms(3) have "workers s \<noteq> []" by auto
  then obtain p where p: "p \<in> set (workers s)" by (cases "workers s") auto
  with assms(2) have "p = Finished" by (simp add: resolved_def list_all_iff)
  with p l show ?thesis by (simp add: ledger_def)
qed

lemma in_pushed_iff:
  "(t, r) \<in> set (pushed lg) \<longleftrightarrow> (\<exists>w. Found w t r \<in> set lg \<or> Created w t r \<in> set lg)"
proof (induction lg)
  case Nil
  show ?case by (simp add: log_simps)
next
  case (Cons a lg)
  then show ?case by (cases a) (auto simp: log_simps)
qed

lemma in_ratelimited_iff:
  "(t, e) \<in> set (ratelimited lg) \<longleftrightarrow> (\<exists>w. RateLimited w t e \<in> set lg)"
proof (induction lg)
  case Nil
  show ?case by (simp add: log_simps)
next
  case (Cons a lg)
  then show ?case by (cases a) (auto simp: log_simps)
qed

lemma in_failed_iff:
  "(t, e) \<in> set (failed lg) \<longleftrightarrow> (\<exists>w. Failed w t e \<in> set lg)"
proof (induction lg)
  case Nil
  show ?case by (simp add: log_simps)
next
  case (Cons a lg)
  then show ?case by (cases a) (auto simp: log_simps)
qed

lemma in_creates_iff:
  "t \<in> set (creates lg) \<longleftrightarrow> (\<exists>w. Create w t \<in> set lg)"
proof (induction lg)
  case Nil
  show ?case by simp
next
  case (Cons a lg)
  then show ?case by (cases a) auto
qed

lemma in_settled_iff:
  "(t, out) \<in> set (settled lg) \<longleftrightarrow>
     (\<exists>w. (\<exists>r. out = Resolved r \<and> Created w t r \<in> set lg)
        \<or> (\<exists>e. out = Rejected e \<and> (RateLimited w t e \<in> set lg \<or> Failed w t e \<in> set lg)))"
proof (induction lg)
  case Nil
  show ?case by (simp add: settled_simps)
next
  case (Cons a lg)
  then show ?case by (cases a) (auto simp: settled_simps)
qed

lemma in_responses_from:
  "(t, out) \<in> set (responses_from g h ts) \<Longrightarrow> \<exists>h'. out = roles_create g h' t"
  by (induction ts arbitrary: h) auto

lemma settled_is_response:
  assumes "ledger g tasks s" and "(t, out) \<in> set (settled (log s))"
  shows "\<exists>h. out = roles_create g h t"
proof -
  from assms(1) have "mset (settled (log s)) + pending s = mset (responses g (creates (log s)))"
    by (simp add: ledger_def)
  then have "set_mset (mset (settled (log s))) \<subseteq> set_mset (mset (responses g (creates (log s))))"
    by (metis mset_subset_eq_add_left set_mset_mono)
  with assms(2) have "(t, out) \<in> set (responses g (creates (log s)))" by auto
  then show ?thesis unfolding responses_def by (rule in_responses_from)
qed

text \<open>The ledger when the call has returned.\<close>

lemma resolved_ledger:
  assumes "run g tasks k sched = Inr s" and "resolved s" and "1 \<le> k"
  shows "shifted (log s) = tasks"
    and "mset (creates (log s)) =
          filter_mset (notfound g) (mset tasks) + mset (map fst (ratelimited (log s)))"
    and "mset (map fst (pushed (log s))) + mset (map fst (failed (log s))) = mset tasks"
    and "mset (settled (log s)) = mset (responses g (creates (log s)))"
proof -
  have l: "ledger g tasks s" using assms(1) by (rule run_ledger)
  have q: "queue s = []" using assms by (rule resolved_queue_empty)
  from l q show sh: "shifted (log s) = tasks" by (simp add: ledger_def)
  from l sh resolved_idle [OF assms(2)]
  show "mset (creates (log s)) =
          filter_mset (notfound g) (mset tasks) + mset (map fst (ratelimited (log s)))"
    and "mset (map fst (pushed (log s))) + mset (map fst (failed (log s))) = mset tasks"
    and "mset (settled (log s)) = mset (responses g (creates (log s)))"
    by (simp_all add: ledger_def)
qed

section \<open>Termination of the queue\<close>

lemma budget_mono: "budget b tasks (h @ ts) \<le> budget b tasks h"
  unfolding budget_def by (rule sum_mono) simp

lemma budget_pay:
  assumes "t \<in> set tasks" and "count_list h t < b t"
  shows "Suc (budget b tasks (h @ [t])) \<le> budget b tasks h"
proof -
  have "(\<Sum>x\<in>set tasks. b x - count_list (h @ [t]) x) < (\<Sum>x\<in>set tasks. b x - count_list h x)"
  proof (rule sum_strict_mono_ex1)
    show "finite (set tasks)" by simp
    show "\<forall>x\<in>set tasks. b x - count_list (h @ [t]) x \<le> b x - count_list h x" by auto
    show "\<exists>a\<in>set tasks. b a - count_list (h @ [t]) a < b a - count_list h a"
      using assms by (intro bexI [of _ t]) auto
  qed
  then show ?thesis by (simp add: budget_def)
qed

lemma invoke_pays:
  assumes "bounded_retry g b" and "t \<in> set tasks"
  shows "weight (AwaitCreate t (roles_create g h t)) + 2 * budget b tasks (h @ [t])
           \<le> 2 + 2 * budget b tasks h"
proof (cases "rate_limited (roles_create g h t)")
  case True
  with assms(1) have "count_list h t < b t" by (simp add: bounded_retry_def)
  with assms(2) have "Suc (budget b tasks (h @ [t])) \<le> budget b tasks h" by (rule budget_pay)
  with True show ?thesis by simp
next
  case False
  with budget_mono [of b tasks h "[t]"] show ?thesis by simp
qed

lemma loop_chunk_cases:
  assumes "loop_chunk g w h q = (c, p, q')"
  shows "(p = Finished \<and> creates c = [] \<and> q' = [])
       \<or> (\<exists>t. p = AwaitCreate t (roles_create g h t) \<and> creates c = [t] \<and> t \<in> set q
              \<and> length q' < length q)"
  using assms
  by (induction q arbitrary: c p q') (fastforce split: option.splits prod.splits)+

lemma loop_chunk_potential:
  assumes "loop_chunk g w h q = (c, p, q')" and "bounded_retry g b" and "set q \<subseteq> set tasks"
  shows "2 * length q' + weight p + 2 * budget b tasks (h @ creates c)
           \<le> 2 * length q + 2 * budget b tasks h"
proof -
  from loop_chunk_cases [OF assms(1)] show ?thesis
  proof
    assume "p = Finished \<and> creates c = [] \<and> q' = []"
    then show ?thesis by simp
  next
    assume "\<exists>t. p = AwaitCreate t (roles_create g h t) \<and> creates c = [t] \<and> t \<in> set q
              \<and> length q' < length q"
    then obtain t where t: "p = AwaitCreate t (roles_create g h t)" "creates c = [t]"
      "t \<in> set q" "length q' < length q"
      by blast
    from t(3) assms(3) have "t \<in> set tasks" by blast
    with assms(2) have "weight (AwaitCreate t (roles_create g h t)) + 2 * budget b tasks (h @ [t])
           \<le> 2 + 2 * budget b tasks h"
      by (rule invoke_pays)
    with t(1,2,4) show ?thesis by simp
  qed
qed

lemma effect_potential:
  assumes ef: "effect g w h q p = (c, p', q')" and "p \<noteq> Finished" and br: "bounded_retry g b"
    and q: "set q \<subseteq> set tasks" and fl: "set_mset (inflight_of p) \<subseteq> set tasks"
  shows "2 * length q' + weight p' + 2 * budget b tasks (h @ creates c)
           < 2 * length q + weight p + 2 * budget b tasks h"
proof (cases p)
  case AtLoop
  with ef have "loop_chunk g w h q = (c, p', q')" by (simp add: effect_def)
  from loop_chunk_potential [OF this br q] AtLoop show ?thesis by simp
next
  case AwaitPace
  with ef have "loop_chunk g w h q = (c, p', q')" by (simp add: effect_def)
  from loop_chunk_potential [OF this br q] AwaitPace show ?thesis by simp
next
  case (AwaitBackoff t)
  with fl have "t \<in> set tasks" by simp
  with br have "weight (AwaitCreate t (roles_create g h t)) + 2 * budget b tasks (h @ [t])
           \<le> 2 + 2 * budget b tasks h"
    by (rule invoke_pays)
  with ef AwaitBackoff show ?thesis by (auto simp: effect_def)
next
  case Finished
  with assms(2) show ?thesis by simp
next
  case (AwaitCreate t out)
  show ?thesis
  proof (cases out)
    case (Resolved r)
    with ef AwaitCreate show ?thesis by (auto simp: effect_def rate_limited_def)
  next
    case (Rejected e)
    show ?thesis
    proof (cases "is_rate_limit e")
      case True
      with ef AwaitCreate Rejected show ?thesis by (auto simp: effect_def rate_limited_def)
    next
      case False
      with ef AwaitCreate Rejected obtain c0 where
        l: "loop_chunk g w h q = (c0, p', q')" and c: "c = Failed w t e # c0"
        by (auto simp: effect_def split: prod.splits)
      from loop_chunk_potential [OF l br q] c AwaitCreate Rejected False
      show ?thesis by (simp add: rate_limited_def)
    qed
  qed
qed

lemma ledger_tasks:
  assumes "ledger g tasks s"
  shows "set (queue s) \<subseteq> set tasks" and "set_mset (inflight s) \<subseteq> set tasks"
proof -
  from assms have a: "shifted (log s) @ queue s = tasks"
    and b: "mset (map fst (pushed (log s))) + mset (map fst (failed (log s))) + inflight s =
       mset (shifted (log s))"
    by (simp_all add: ledger_def)
  from a show "set (queue s) \<subseteq> set tasks" by auto
  from b have "inflight s \<subseteq># mset (shifted (log s))"
    by (metis mset_subset_eq_add_right)
  then have "set_mset (inflight s) \<subseteq> set (shifted (log s))"
    by (metis set_mset_mono set_mset_mset)
  with a show "set_mset (inflight s) \<subseteq> set tasks" by auto
qed

lemma step_potential:
  assumes l: "ledger g tasks s" and en: "enabled w s" and br: "bounded_retry g b"
    and ef: "effect g w (creates (log s)) (queue s) (workers s ! w) = (c, p, q)"
  shows "potential b tasks (commit w (c, p, q) s) < potential b tasks s"
proof -
  let ?p = "workers s ! w"
  obtain R where R: "mset (workers s) = add_mset ?p R"
    "\<And>x. mset ((workers s)[w := x]) = add_mset x R"
    using mset_workers_step [OF en] by blast
  have nf: "?p \<noteq> Finished" using en by (simp add: enabled_def)
  have "inflight_of ?p \<subseteq># inflight s"
    by (simp add: inflight_def R(1))
  then have "set_mset (inflight_of ?p) \<subseteq> set_mset (inflight s)" by (rule set_mset_mono)
  with ledger_tasks [OF l] have "set_mset (inflight_of ?p) \<subseteq> set tasks" by blast
  from effect_potential [OF ef nf br ledger_tasks(1) [OF l] this]
  show ?thesis
    by (simp add: potential_def commit_fields log_append R)
qed

lemma steps_decrease:
  assumes "bounded_retry g b" and "(s', s) \<in> steps g tasks k"
  shows "potential b tasks s' < potential b tasks s"
proof -
  from assms(2) obtain sched w where r: "run g tasks k sched = Inr s"
    and en: "enabled w s" and s': "resume g w s = Inr s'"
    by (auto simp: steps_def)
  have l: "ledger g tasks s" using r by (rule run_ledger)
  obtain c p q where ef: "effect g w (creates (log s)) (queue s) (workers s ! w) = (c, p, q)"
    by (cases "effect g w (creates (log s)) (queue s) (workers s ! w)") auto
  with s' have "s' = commit w (c, p, q) s" by (simp add: resume_commit)
  with step_potential [OF l en assms(1) ef] show ?thesis by simp
qed

lemma wf_steps:
  assumes "bounded_retry g b"
  shows "wf (steps g tasks k)"
proof (rule wf_subset)
  show "wf (measure (potential b tasks))" by simp
  show "steps g tasks k \<subseteq> measure (potential b tasks)"
    using steps_decrease [OF assms] by auto
qed

lemma exec_append:
  "exec g (xs @ ys) s = (case exec g xs s of Inl e \<Rightarrow> Inl e | Inr s' \<Rightarrow> exec g ys s')"
  by (induction xs arbitrary: s) (auto split: sum.splits)

lemma unresolved_enabled:
  assumes "\<not> resolved s"
  shows "\<exists>w. enabled w s"
proof -
  from assms obtain p where "p \<in> set (workers s)" "p \<noteq> Finished"
    by (auto simp: resolved_def list_all_iff)
  then obtain w where "w < length (workers s)" "workers s ! w \<noteq> Finished"
    by (auto simp: in_set_conv_nth)
  then show ?thesis by (auto simp: enabled_def)
qed

lemma can_finish:
  assumes "bounded_retry g b"
  shows "ledger g tasks s \<Longrightarrow> potential b tasks s \<le> n \<Longrightarrow>
           \<exists>more s'. exec g more s = Inr s' \<and> resolved s'"
proof (induction n arbitrary: s)
  case 0
  show ?case
  proof (cases "resolved s")
    case True
    then have "exec g [] s = Inr s \<and> resolved s" by simp
    then show ?thesis by blast
  next
    case False
    then obtain w where en: "enabled w s" using unresolved_enabled by blast
    obtain c p q where ef: "effect g w (creates (log s)) (queue s) (workers s ! w) = (c, p, q)"
      by (cases "effect g w (creates (log s)) (queue s) (workers s ! w)") auto
    from step_potential [OF "0.prems"(1) en assms ef] "0.prems"(2) show ?thesis by simp
  qed
next
  case (Suc n)
  show ?case
  proof (cases "resolved s")
    case True
    then have "exec g [] s = Inr s \<and> resolved s" by simp
    then show ?thesis by blast
  next
    case False
    then obtain w where en: "enabled w s" using unresolved_enabled by blast
    obtain c p q where ef: "effect g w (creates (log s)) (queue s) (workers s ! w) = (c, p, q)"
      by (cases "effect g w (creates (log s)) (queue s) (workers s ! w)") auto
    let ?s1 = "commit w (c, p, q) s"
    have l1: "ledger g tasks ?s1" using Suc.prems(1) en ef by (rule ledger_step)
    have "potential b tasks ?s1 \<le> n"
      using step_potential [OF Suc.prems(1) en assms ef] Suc.prems(2) by simp
    with l1 obtain more s' where m: "exec g more ?s1 = Inr s'" "resolved s'"
      using Suc.IH by blast
    have "exec g (w # more) s = Inr s'"
      using en ef m(1) by (simp add: resume_commit)
    with m(2) show ?thesis by blast
  qed
qed

lemma run_can_finish:
  assumes "bounded_retry g b"
  shows "\<exists>more rs. createRoleQueueConcurrent g tasks k (sched @ more) = Returned rs"
proof -
  obtain s where r: "run g tasks k sched = Inr s"
    unfolding run_def using exec_never_raises by blast
  have l: "ledger g tasks s" using r by (rule run_ledger)
  from can_finish [OF assms l order_refl]
  obtain more s' where m: "exec g more s = Inr s'" "resolved s'" by blast
  have "run g tasks k (sched @ more) = Inr s'"
    using r m(1) by (simp add: run_def exec_append append_assoc [symmetric] del: append_assoc)
  with m(2) have "createRoleQueueConcurrent g tasks k (sched @ more) = Returned (createdRoles s')"
    by (simp add: createRoleQueueConcurrent_def)
  then show ?thesis by blast
qed


section \<open>Every worker follows the protocol\<close>






















lemma in_by_worker: "e \<in> set (by_worker w lg) \<Longrightarrow> worker_of e = w"
  by (simp add: by_worker_def)



section \<open>The failures of a run do not depend on the schedule\<close>

lemma responses_from_for:
  assumes "answers_by g key f"
  shows "map snd (filter (\<lambda>x. key (fst x) = c) (responses_from g h ts)) =
           map (f c) [count_list (map key h) c ..<
                      count_list (map key h) c + count_list (map key ts) c]"
proof (induction ts arbitrary: h)
  case Nil
  show ?case by simp
next
  case (Cons a ts)
  show ?case
  proof (cases "key a = c")
    case True
    have "[count_list (map key h) c ..< count_list (map key h) c + count_list (map key (a # ts)) c]
        = count_list (map key h) c #
          [Suc (count_list (map key h) c) ..<
           Suc (count_list (map key h) c) + count_list (map key ts) c]"
      using True by (simp add: upt_conv_Cons)
    with True Cons [of "h @ [a]"] assms show ?thesis
      by (simp add: answers_by_def)
  next
    case False
    with Cons [of "h @ [a]"] show ?thesis by simp
  qed
qed

lemma responses_for:
  assumes "answers_by g key f"
  shows "map snd (filter (\<lambda>x. key (fst x) = c) (responses g ts)) =
           map (f c) [0 ..< count_list (map key ts) c]"
  using responses_from_for [OF assms, of c "[]" ts] by (simp add: responses_def)

lemma same_mset_same_count:
  assumes "mset xs = mset ys"
  shows "length (filter Q xs) = length (filter Q ys)"
proof -
  have "size (filter_mset Q (mset xs)) = size (filter_mset Q (mset ys))"
    using assms by simp
  then show ?thesis by (simp only: mset_filter [symmetric] size_mset)
qed

lemma settled_terminal:
  assumes "\<forall>e\<in>set lg. event_ok g e"
  shows "length (filter (\<lambda>x. key (fst x) = c \<and> terminal (snd x)) (settled lg)) =
           length (filter (\<lambda>t. key t = c \<and> notfound g t) (map fst (pushed lg)))
         + length (filter (\<lambda>t. key t = c \<and> notfound g t) (map fst (failed lg)))"
  using assms
proof (induction lg)
  case Nil
  show ?case by (simp add: log_simps settled_simps)
next
  case (Cons a lg)
  then show ?case
    by (cases a) (auto simp: log_simps settled_simps terminal_def rate_limited_def notfound_def)
qed

lemma settled_permanent:
  assumes "\<forall>e\<in>set lg. event_ok g e"
  shows "length (filter (\<lambda>x. key (fst x) = c \<and> permanent (snd x)) (settled lg)) =
           length (filter (\<lambda>x. key (fst x) = c) (failed lg))"
  using assms
proof (induction lg)
  case Nil
  show ?case by (simp add: log_simps settled_simps)
next
  case (Cons a lg)
  then show ?case
    by (cases a) (auto simp: log_simps settled_simps permanent_def)
qed

lemma filter_for:
  "length (filter (\<lambda>x. key (fst x) = c \<and> P (snd x)) xs) =
     length (filter P (map snd (filter (\<lambda>x. key (fst x) = c) xs)))"
  by (induction xs) auto

lemma permanent_terminal: "permanent out \<Longrightarrow> terminal out"
  by (cases out) (simp_all add: permanent_def terminal_def rate_limited_def)

lemma same_terminals_le:
  assumes "c1 \<le> c2"
    and "length (filter terminal (map p [0 ..< c1])) = length (filter terminal (map p [0 ..< c2]))"
  shows "length (filter permanent (map p [0 ..< c1])) =
         length (filter permanent (map p [0 ..< c2]))"
proof -
  have sp: "[0 ..< c2] = [0 ..< c1] @ [c1 ..< c2]"
    using assms(1) by (metis le_add_diff_inverse upt_add_eq_append zero_le)
  from assms(2) have "length (filter terminal (map p [c1 ..< c2])) = 0"
    by (simp add: sp)
  then have "\<forall>i\<in>set [c1 ..< c2]. \<not> terminal (p i)"
    by (auto simp: filter_empty_conv)
  then have "\<forall>i\<in>set [c1 ..< c2]. \<not> permanent (p i)"
    using permanent_terminal by blast
  then have "length (filter permanent (map p [c1 ..< c2])) = 0"
    by (auto simp: filter_empty_conv)
  then show ?thesis by (simp add: sp)
qed

lemma same_terminals:
  assumes "length (filter terminal (map p [0 ..< c1])) = length (filter terminal (map p [0 ..< c2]))"
  shows "length (filter permanent (map p [0 ..< c1])) =
         length (filter permanent (map p [0 ..< c2]))"
proof (cases "c1 \<le> c2")
  case True
  then show ?thesis using assms by (rule same_terminals_le)
next
  case False
  then have "c2 \<le> c1" by simp
  from same_terminals_le [OF this assms [symmetric]] show ?thesis by simp
qed

text \<open>The failures under a key in a run that has returned, read off the guild's answers.\<close>

lemma resolved_failures:
  assumes pt: "answers_by g key f" and r: "run g tasks k sched = Inr s" and res: "resolved s"
    and k: "1 \<le> k"
  shows "length (filter (\<lambda>x. key (fst x) = c) (failed (log s))) =
           length (filter permanent (map (f c) [0 ..< count_list (map key (creates (log s))) c]))"
    and "length (filter terminal (map (f c) [0 ..< count_list (map key (creates (log s))) c])) =
           length (filter (\<lambda>t. key t = c \<and> notfound g t) tasks)"
proof -
  let ?n = "count_list (map key (creates (log s))) c"
  have l: "ledger g tasks s" using r by (rule run_ledger)
  have ev: "\<forall>e\<in>set (log s). event_ok g e" using l by (simp add: ledger_def)
  note fin = resolved_ledger [OF r res k]
  have m: "mset (settled (log s)) = mset (responses g (creates (log s)))" by (rule fin(4))
  have "length (filter (\<lambda>x. key (fst x) = c) (failed (log s))) =
      length (filter (\<lambda>x. key (fst x) = c \<and> permanent (snd x)) (settled (log s)))"
    using ev by (simp add: settled_permanent)
  also have "\<dots> = length (filter (\<lambda>x. key (fst x) = c \<and> permanent (snd x))
      (responses g (creates (log s))))"
    using m by (rule same_mset_same_count)
  also have "\<dots> = length (filter permanent (map (f c) [0 ..< ?n]))"
    by (simp only: filter_for responses_for [OF pt])
  finally show "length (filter (\<lambda>x. key (fst x) = c) (failed (log s))) =
           length (filter permanent (map (f c) [0 ..< ?n]))" .
  have "mset (map fst (pushed (log s)) @ map fst (failed (log s))) = mset tasks"
    using fin(3) by simp
  then have t: "length (filter (\<lambda>t. key t = c \<and> notfound g t)
        (map fst (pushed (log s)) @ map fst (failed (log s))))
      = length (filter (\<lambda>t. key t = c \<and> notfound g t) tasks)"
    by (rule same_mset_same_count)
  have "length (filter terminal (map (f c) [0 ..< ?n])) =
      length (filter (\<lambda>x. key (fst x) = c \<and> terminal (snd x)) (responses g (creates (log s))))"
    by (simp only: filter_for responses_for [OF pt])
  also have "\<dots> = length (filter (\<lambda>x. key (fst x) = c \<and> terminal (snd x)) (settled (log s)))"
    using m [symmetric] by (rule same_mset_same_count)
  also have "\<dots> = length (filter (\<lambda>t. key t = c \<and> notfound g t) (map fst (pushed (log s))))
         + length (filter (\<lambda>t. key t = c \<and> notfound g t) (map fst (failed (log s))))"
    using ev by (rule settled_terminal)
  also have "\<dots> = length (filter (\<lambda>t. key t = c \<and> notfound g t) tasks)"
    using t by simp
  finally show "length (filter terminal (map (f c) [0 ..< ?n])) =
           length (filter (\<lambda>t. key t = c \<and> notfound g t) tasks)" .
qed

lemma count_list_map_filter:
  "count_list (map h xs) c = length (filter (\<lambda>x. h x = c) xs)"
  by (induction xs) auto

lemma same_failures:
  assumes pt: "answers_by g key f"
    and r1: "run g tasks k sched = Inr s" "resolved s" "1 \<le> k"
    and r2: "run g tasks k' sched' = Inr s'" "resolved s'" "1 \<le> k'"
  shows "length (failed (log s)) = length (failed (log s'))"
proof -
  have "count (mset (map (\<lambda>x. key (fst x)) (failed (log s)))) c =
        count (mset (map (\<lambda>x. key (fst x)) (failed (log s')))) c"
    for c
  proof -
    from resolved_failures(2) [OF pt r1, of c] resolved_failures(2) [OF pt r2, of c]
    have "length (filter terminal
            (map (f c) [0 ..< count_list (map key (creates (log s))) c])) =
          length (filter terminal
            (map (f c) [0 ..< count_list (map key (creates (log s'))) c]))"
      by simp
    then have "length (filter permanent
            (map (f c) [0 ..< count_list (map key (creates (log s))) c])) =
          length (filter permanent
            (map (f c) [0 ..< count_list (map key (creates (log s'))) c]))"
      by (rule same_terminals)
    with resolved_failures(1) [OF pt r1, of c] resolved_failures(1) [OF pt r2, of c]
    show ?thesis by (simp only: count_mset count_list_map_filter)
  qed
  then have "mset (map (\<lambda>x. key (fst x)) (failed (log s))) =
      mset (map (\<lambda>x. key (fst x)) (failed (log s')))"
    by (rule multiset_eqI)
  then have "size (mset (map (\<lambda>x. key (fst x)) (failed (log s)))) =
      size (mset (map (\<lambda>x. key (fst x)) (failed (log s'))))"
    by simp
  then show ?thesis by simp
qed

lemma resolved_count:
  assumes "run g tasks k sched = Inr s" and "resolved s" and "1 \<le> k"
  shows "length (createdRoles s) + length (failed (log s)) = length tasks"
proof -
  have l: "ledger g tasks s" using assms(1) by (rule run_ledger)
  have "size (mset (map fst (pushed (log s))) + mset (map fst (failed (log s))))
        = size (mset tasks)"
    using resolved_ledger(3) [OF assms] by simp
  with l show ?thesis by (simp add: ledger_def)
qed

section \<open>The retry loop keeps its invariant\<close>



lemma loop_chunk_on_task:
  assumes "loop_chunk g w h q = (c, p, q')" and "notfound g t"
  shows "ratelimited c = [] \<and> failed c = [] \<and> for_task t (pushed c) = []
       \<and> ((p = AwaitCreate t (roles_create g h t) \<and> count_list (creates c) t = 1
            \<and> count_list q t = Suc (count_list q' t))
          \<or> (t \<notin># inflight_of p \<and> count_list (creates c) t = 0
            \<and> count_list q' t = count_list q t))"
  using assms
proof (induction q arbitrary: c p q')
  case Nil
  then show ?case by (auto simp: log_simps for_task_def)
next
  case (Cons a q)
  show ?case
  proof (cases "cache_find g (name a)")
    case None
    with Cons.prems show ?thesis by (auto simp: log_simps for_task_def)
  next
    case (Some ro)
    with Cons.prems(2) have ne: "a \<noteq> t" by (auto simp: notfound_def)
    obtain c0 p0 q0 where l: "loop_chunk g w h q = (c0, p0, q0)"
      by (cases "loop_chunk g w h q") auto
    with Cons.prems(1) Some have e: "c = Shift w a # Found w a ro # c0" "p = p0" "q' = q0"
      by auto
    from Cons.IH [OF l Cons.prems(2)] e ne show ?thesis
      by (auto simp: log_simps for_task_def)
  qed
qed

text \<open>What a step does to one task that is not in the snapshot.\<close>

lemma effect_on_task:
  assumes ef: "effect g w h q p = (c, p', q')" and nf: "notfound g t"
  shows "(t \<notin># inflight_of p \<and> t \<notin># inflight_of p' \<and> count_list (creates c) t = 0
            \<and> retries t c = [] \<and> for_task t (pushed c) = [] \<and> for_task t (failed c) = []
            \<and> count_list q' t = count_list q t)
       \<or> (t \<notin># inflight_of p \<and> p' = AwaitCreate t (roles_create g h t)
            \<and> count_list (creates c) t = 1
            \<and> retries t c = [] \<and> for_task t (pushed c) = [] \<and> for_task t (failed c) = []
            \<and> count_list q t = Suc (count_list q' t))
       \<or> (\<exists>e. p = AwaitCreate t (Rejected e) \<and> is_rate_limit e \<and> p' = AwaitBackoff t \<and> q' = q
            \<and> count_list (creates c) t = 0
            \<and> retries t c = [e] \<and> for_task t (pushed c) = [] \<and> for_task t (failed c) = [])
       \<or> (p = AwaitBackoff t \<and> p' = AwaitCreate t (roles_create g h t) \<and> q' = q
            \<and> count_list (creates c) t = 1
            \<and> retries t c = [] \<and> for_task t (pushed c) = [] \<and> for_task t (failed c) = [])
       \<or> (\<exists>r'. p = AwaitCreate t (Resolved r') \<and> t \<notin># inflight_of p' \<and> q' = q
            \<and> count_list (creates c) t = 0
            \<and> retries t c = [] \<and> for_task t (pushed c) = [(t, r')] \<and> for_task t (failed c) = [])
       \<or> (\<exists>e. p = AwaitCreate t (Rejected e) \<and> \<not> is_rate_limit e)"
proof (cases p)
  case AtLoop
  with ef have "loop_chunk g w h q = (c, p', q')" by (simp add: effect_def)
  from loop_chunk_on_task [OF this nf] AtLoop show ?thesis
    by (auto simp: retries_def for_task_def)
next
  case AwaitPace
  with ef have "loop_chunk g w h q = (c, p', q')" by (simp add: effect_def)
  from loop_chunk_on_task [OF this nf] AwaitPace show ?thesis
    by (auto simp: retries_def for_task_def)
next
  case Finished
  with ef show ?thesis
    by (auto simp: effect_def retries_def for_task_def log_simps)
next
  case (AwaitBackoff t')
  with ef show ?thesis
    by (cases "t' = t") (auto simp: effect_def retries_def for_task_def log_simps)
next
  case (AwaitCreate t' out)
  show ?thesis
  proof (cases out)
    case (Resolved r')
    with ef AwaitCreate show ?thesis
      by (cases "t' = t") (auto simp: effect_def retries_def for_task_def log_simps)
  next
    case (Rejected e)
    show ?thesis
    proof (cases "is_rate_limit e")
      case True
      with ef AwaitCreate Rejected show ?thesis
        by (cases "t' = t") (auto simp: effect_def retries_def for_task_def log_simps)
    next
      case False
      show ?thesis
      proof (cases "t' = t")
        case True
        with AwaitCreate Rejected False show ?thesis by simp
      next
        case ne: False
        from ef AwaitCreate Rejected False obtain c0 where
          l: "loop_chunk g w h q = (c0, p', q')" and c: "c = Failed w t' e # c0"
          by (auto simp: effect_def split: prod.splits)
        from loop_chunk_on_task [OF l nf] c ne AwaitCreate show ?thesis
          by (auto simp: retries_def for_task_def log_simps)
      qed
    qed
  qed
qed











section \<open>A task that is always rate limited\<close>

lemma starved_step:
  assumes al: "always_limited g t" and nf: "notfound g t" and st: "starved g t s"
    and en: "enabled w s"
    and ef: "effect g w (creates (log s)) (queue s) (workers s ! w) = (c, p, q)"
  shows "starved g t (commit w (c, p, q) s)"
proof -
  define s' where "s' = commit w (c, p, q) s"
  let ?p = "workers s ! w"
  let ?IR = "\<lambda>R. (\<Sum>y\<in>#R. inflight_of y)"
  obtain R where R: "mset (workers s) = add_mset ?p R"
    "\<And>x. mset ((workers s)[w := x]) = add_mset x R"
    using mset_workers_step [OF en] by blast
  have fl: "inflight s = inflight_of ?p + ?IR R"
    by (simp add: inflight_def R(1))
  have fl': "inflight s' = inflight_of p + ?IR R"
    by (simp add: s'_def inflight_def commit_fields R(2))
  have ws: "set (workers s) = insert ?p (set_mset R)"
    by (metis R(1) set_mset_add_mset_insert set_mset_mset)
  have ws': "set (workers s') = insert p (set_mset R)"
    unfolding s'_def by (metis R(2) commit_fields(4) set_mset_add_mset_insert set_mset_mset)
  have q': "queue s' = q" by (simp add: s'_def commit_fields)
  have new: "rate_limited (roles_create g (creates (log s)) t)"
    using al by (simp add: always_limited_def)
  have old: "\<forall>x\<in>#R. \<forall>out. x = AwaitCreate t out \<longrightarrow> rate_limited out"
    using st ws by (simp add: starved_def)
  have mine: "rate_limited out" if "?p = AwaitCreate t out" for out
    using st ws that by (simp add: starved_def)
  have rest: "t \<in> set (queue s) \<or> t \<in># inflight_of ?p \<or> t \<in># ?IR R"
    using st fl by (auto simp: starved_def)
  from effect_on_task [OF ef nf]
  consider
    (quiet) "t \<notin># inflight_of ?p" "t \<notin># inflight_of p"
      "count_list q t = count_list (queue s) t"
  | (taken) "p = AwaitCreate t (roles_create g (creates (log s)) t)"
  | (limited) "p = AwaitBackoff t"
  | (created) r' where "?p = AwaitCreate t (Resolved r')"
  | (refused) e where "?p = AwaitCreate t (Rejected e)" "\<not> is_rate_limit e"
    by (elim disjE exE conjE; blast)
  then have "starved g t s'"
  proof cases
    case quiet
    have "t \<in> set q \<longleftrightarrow> t \<in> set (queue s)"
      using quiet(3) by (metis count_list_0_iff)
    with rest quiet(1) have a: "t \<in> set (queue s') \<or> t \<in># inflight s'"
      by (auto simp: q' fl')
    have "p \<noteq> AwaitCreate t out" for out
      using quiet(2) by auto
    with old have "\<forall>x\<in>set (workers s'). \<forall>out. x = AwaitCreate t out \<longrightarrow> rate_limited out"
      by (simp add: ws')
    with a show ?thesis by (simp add: starved_def)
  next
    case taken
    then have "t \<in># inflight_of p" by simp
    then have a: "t \<in># inflight s'" by (simp add: fl')
    have "\<forall>out. p = AwaitCreate t out \<longrightarrow> rate_limited out"
      using new by (simp add: taken)
    with old have "\<forall>x\<in>set (workers s'). \<forall>out. x = AwaitCreate t out \<longrightarrow> rate_limited out"
      by (simp add: ws')
    with a show ?thesis by (simp add: starved_def)
  next
    case limited
    then have "t \<in># inflight_of p" by simp
    then have a: "t \<in># inflight s'" by (simp add: fl')
    have "\<forall>out. p = AwaitCreate t out \<longrightarrow> rate_limited out"
      by (simp add: limited)
    with old have "\<forall>x\<in>set (workers s'). \<forall>out. x = AwaitCreate t out \<longrightarrow> rate_limited out"
      by (simp add: ws')
    with a show ?thesis by (simp add: starved_def)
  next
    case (created r')
    then have "rate_limited (Resolved r')" by (rule mine)
    then show ?thesis by (simp add: rate_limited_def)
  next
    case (refused e)
    from refused(1) have "rate_limited (Rejected e)" by (rule mine)
    with refused(2) show ?thesis by (simp add: rate_limited_def)
  qed
  then show ?thesis by (simp only: s'_def)
qed

lemma starved_run:
  assumes "always_limited g t" and "notfound g t" and "t \<in> set tasks"
    and "run g tasks k sched = Inr s"
  shows "starved g t s"
proof -
  have i: "starved g t (init tasks k)"
    using assms(3) by (auto simp: starved_def init_def)
  from assms(4) have "exec g ([0 ..< k] @ sched) (init tasks k) = Inr s"
    by (simp add: run_def)
  from this i show ?thesis
    by (induction rule: exec_induct) (rule starved_step [OF assms(1,2)])
qed

lemma starved_pending:
  assumes "always_limited g t" and "notfound g t" and "t \<in> set tasks" and "1 \<le> k"
  shows "createRoleQueueConcurrent g tasks k sched = Pending"
proof -
  obtain s where r: "run g tasks k sched = Inr s"
    unfolding run_def using exec_never_raises by blast
  have st: "starved g t s" using assms(1-3) r by (rule starved_run)
  have "\<not> resolved s"
  proof
    assume res: "resolved s"
    then have "inflight s = {#}" by (rule resolved_idle)
    moreover have "queue s = []" using r res assms(4) by (rule resolved_queue_empty)
    ultimately show False using st by (simp add: starved_def)
  qed
  with r show ?thesis by (simp add: createRoleQueueConcurrent_def)
qed

section \<open>Claims on the role creation queue\<close>

lemma run_end_of: "run g tasks k sched = Inr (end_of (run g tasks k sched))"
proof -
  obtain s where "run g tasks k sched = Inr s"
    unfolding run_def using exec_never_raises by blast
  then show ?thesis by (simp add: end_of_def)
qed

lemma not_rate_limit_forbidden: "\<not> is_rate_limit forbidden"
  by code_simp

lemma rate_limit_slow_down: "is_rate_limit slow_down"
  by code_simp

text \<open>
  Claim C1. For every task list of size N and every worker count \<open>k \<ge> 1\<close>, when no task
  name has a role in the snapshot: in every state of a run the tasks taken from the queue,
  followed by the queue, are the input list, so no task is claimed twice; and when the call
  has returned, the tasks taken are exactly the input list (none is left out) and
  \<^verbatim>\<open>create\<close> was invoked once for each task plus once for each rate-limit answer,
  so N tasks were attempted.
\<close>

theorem every_task_attempted_once:
  assumes "run g tasks k sched = Inr s" and "1 \<le> k"
    and "\<forall>t\<in>set tasks. cache_find g (name t) = None"
  shows "shifted (log s) @ queue s = tasks
       \<and> (resolved s \<longrightarrow>
            shifted (log s) = tasks
          \<and> mset (creates (log s)) = mset tasks + mset (map fst (ratelimited (log s)))
          \<and> length (creates (log s)) = length tasks + length (ratelimited (log s)))"
proof -
  have "ledger g tasks s" using assms(1) by (rule run_ledger)
  then have q: "shifted (log s) @ queue s = tasks" by (simp add: ledger_def)
  have f: "filter_mset (notfound g) (mset tasks) = mset tasks"
    using assms(3) by (simp add: notfound_def filter_mset_eq_conv)
  have "shifted (log s) = tasks
          \<and> mset (creates (log s)) = mset tasks + mset (map fst (ratelimited (log s)))
          \<and> length (creates (log s)) = length tasks + length (ratelimited (log s))"
    if res: "resolved s"
  proof -
    from f resolved_ledger(1,2) [OF assms(1) res assms(2)]
    have a: "shifted (log s) = tasks"
      and b: "mset (creates (log s)) = mset tasks + mset (map fst (ratelimited (log s)))"
      by simp_all
    from b have "size (mset (creates (log s))) =
        size (mset tasks + mset (map fst (ratelimited (log s))))"
      by simp
    then have "length (creates (log s)) = length tasks + length (ratelimited (log s))"
      by simp
    with a b show ?thesis by simp
  qed
  with q show ?thesis by blast
qed

theorem every_task_attempted_once_witness:
  "run flaky_guild [red, blue] 2 [0, 1, 0, 1, 0, 1, 0, 1] = Inr flaky_end
   \<and> resolved flaky_end \<and> (1::nat) \<le> 2
   \<and> cache_find flaky_guild (name red) = None \<and> cache_find flaky_guild (name blue) = None
   \<and> shifted (log flaky_end) = [red, blue]
   \<and> length (creates (log flaky_end)) = length [red, blue] + length (ratelimited (log flaky_end))
   \<and> length (ratelimited (log flaky_end)) = 2"
proof -
  have r: "run flaky_guild [red, blue] 2 [0, 1, 0, 1, 0, 1, 0, 1] = Inr flaky_end"
    unfolding flaky_end_def by (rule run_end_of)
  have res: "resolved flaky_end" by code_simp
  have k: "(1::nat) \<le> 2" by simp
  have nf: "\<forall>t\<in>set [red, blue]. cache_find flaky_guild (name t) = None"
    by (simp add: cache_find_def flaky_guild_def)
  have n: "length (ratelimited (log flaky_end)) = 2" by code_simp
  from every_task_attempted_once [OF r k nf] r res k nf n show ?thesis by simp
qed

text \<open>
  Claim C2. For a task whose name has a role in the snapshot, \<^verbatim>\<open>create\<close> is never
  invoked for that task, nor for any task of that name, in any state a run reaches; and
  when the call has returned with \<open>k \<ge> 1\<close>, the role of the snapshot was pushed to the
  result once for each occurrence of the task in the input.
\<close>

theorem existing_role_never_created:
  assumes "run g tasks k sched = Inr s" and "cache_find g (name t) = Some r"
  shows "(\<forall>t'\<in>set (creates (log s)). name t' \<noteq> name t)
       \<and> (resolved s \<and> 1 \<le> k \<and> t \<in> set tasks \<longrightarrow>
            (t, r) \<in> set (pushed (log s)) \<and> r \<in> set (createdRoles s)
            \<and> count_list (map fst (pushed (log s))) t = count_list tasks t)"
proof -
  have l: "ledger g tasks s" using assms(1) by (rule run_ledger)
  have ev: "\<forall>e\<in>set (log s). event_ok g e" using l by (simp add: ledger_def)
  have a: "\<forall>t'\<in>set (creates (log s)). name t' \<noteq> name t"
  proof
    fix t' assume "t' \<in> set (creates (log s))"
    then obtain w where "Create w t' \<in> set (log s)" by (auto simp: in_creates_iff)
    with ev have "event_ok g (Create w t')" by blast
    with assms(2) show "name t' \<noteq> name t" by (auto simp: notfound_def)
  qed
  have b: "(t, r) \<in> set (pushed (log s)) \<and> r \<in> set (createdRoles s)
            \<and> count_list (map fst (pushed (log s))) t = count_list tasks t"
    if h: "resolved s" "1 \<le> k" "t \<in> set tasks"
  proof -
    have nf: "t \<notin> set (map fst (failed (log s)))"
    proof
      assume "t \<in> set (map fst (failed (log s)))"
      then obtain e where "(t, e) \<in> set (failed (log s))" by auto
      then obtain w where "Failed w t e \<in> set (log s)" by (auto simp: in_failed_iff)
      with ev have "event_ok g (Failed w t e)" by blast
      with assms(2) show False by (simp add: notfound_def)
    qed
    have "mset (map fst (pushed (log s))) + mset (map fst (failed (log s))) = mset tasks"
      using assms(1) h(1,2) by (rule resolved_ledger)
    then have "count (mset (map fst (pushed (log s)))) t
        + count (mset (map fst (failed (log s)))) t = count (mset tasks) t"
      by (metis count_union)
    moreover have "count (image_mset fst (mset (failed (log s)))) t = 0"
      using nf by (intro count_absent) simp
    ultimately have c: "count_list (map fst (pushed (log s))) t = count_list tasks t"
      by (simp add: count_image_list count_mset)
    with h(3) have "t \<in> set (map fst (pushed (log s)))"
      by (metis count_list_0_iff)
    then obtain r' where p: "(t, r') \<in> set (pushed (log s))" by auto
    then obtain w where "Found w t r' \<in> set (log s) \<or> Created w t r' \<in> set (log s)"
      by (auto simp: in_pushed_iff)
    with ev have "event_ok g (Found w t r') \<or> event_ok g (Created w t r')" by blast
    with assms(2) have "r' = r" by (auto simp: notfound_def)
    with p have d: "(t, r) \<in> set (pushed (log s))" by simp
    then have "r \<in> set (map snd (pushed (log s)))" by force
    with l have "r \<in> set (createdRoles s)" by (simp add: ledger_def)
    with c d show ?thesis by simp
  qed
  from a b show ?thesis by blast
qed

theorem existing_role_never_created_witness:
  "run half_guild [red, blue] 2 [0, 0] = Inr half_end
   \<and> cache_find half_guild (name red) = Some red_role
   \<and> resolved half_end \<and> (1::nat) \<le> 2 \<and> red \<in> set [red, blue]
   \<and> creates (log half_end) = [blue]
   \<and> (red, red_role) \<in> set (pushed (log half_end))
   \<and> red_role \<in> set (createdRoles half_end)
   \<and> createdRoles half_end = [red_role, made blue]"
proof -
  have r: "run half_guild [red, blue] 2 [0, 0] = Inr half_end"
    unfolding half_end_def by (rule run_end_of)
  have cf: "cache_find half_guild (name red) = Some red_role"
    by (simp add: cache_find_def half_guild_def red_def red_role_def)
  have res: "resolved half_end" by code_simp
  have c: "creates (log half_end) = [blue]" by code_simp
  have cr: "createdRoles half_end = [red_role, made blue]" by code_simp
  have "resolved half_end \<and> (1::nat) \<le> 2 \<and> red \<in> set [red, blue] \<longrightarrow>
      (red, red_role) \<in> set (pushed (log half_end)) \<and> red_role \<in> set (createdRoles half_end)
      \<and> count_list (map fst (pushed (log half_end))) red = count_list [red, blue] red"
    using existing_role_never_created [OF r cf] by (rule conjunct2)
  with res have "(red, red_role) \<in> set (pushed (log half_end))"
    and "red_role \<in> set (createdRoles half_end)"
    by simp_all
  with r cf res c cr show ?thesis by simp
qed

text \<open>
  Claim C3. When the call has returned with \<open>k \<ge> 1\<close>, every invocation of
  \<^verbatim>\<open>create\<close> for a task outside the snapshot is the first one for an occurrence of the
  task in the input or follows a rate-limit answer: an error that is not a rate limit
  causes no retry. For a task whose \<^verbatim>\<open>create\<close> always raises an error that is not a
  rate limit, \<^verbatim>\<open>create\<close> is invoked exactly once for each occurrence, the failure is
  logged once for each occurrence, nothing is pushed to the result for it, and the workers
  still take every task of the input from the queue.
\<close>

theorem permanent_failure_not_retried:
  assumes "run g tasks k sched = Inr s" and "resolved s" and "1 \<le> k"
    and "cache_find g (name t) = None"
  shows "shifted (log s) = tasks
       \<and> createdRoles s = map snd (pushed (log s))
       \<and> count_list (creates (log s)) t =
           count_list tasks t + count_list (map fst (ratelimited (log s))) t
       \<and> ((\<forall>h. \<exists>e. roles_create g h t = Rejected e \<and> \<not> is_rate_limit e) \<longrightarrow>
            count_list (creates (log s)) t = count_list tasks t
            \<and> count_list (map fst (failed (log s))) t = count_list tasks t
            \<and> t \<notin> fst ` set (pushed (log s)))"
proof -
  have l: "ledger g tasks s" using assms(1) by (rule run_ledger)
  have ev: "\<forall>e\<in>set (log s). event_ok g e" using l by (simp add: ledger_def)
  note fin = resolved_ledger [OF assms(1-3)]
  have cr: "createdRoles s = map snd (pushed (log s))" using l by (simp add: ledger_def)
  have "count (mset (creates (log s))) t =
      count (filter_mset (notfound g) (mset tasks) + mset (map fst (ratelimited (log s)))) t"
    using fin(2) by simp
  then have general: "count_list (creates (log s)) t =
           count_list tasks t + count_list (map fst (ratelimited (log s))) t"
    using assms(4) by (simp add: count_mset count_image_list notfound_def)
  have special: "count_list (creates (log s)) t = count_list tasks t
            \<and> count_list (map fst (failed (log s))) t = count_list tasks t
            \<and> t \<notin> fst ` set (pushed (log s))"
    if perm: "\<forall>h. \<exists>e. roles_create g h t = Rejected e \<and> \<not> is_rate_limit e"
  proof -
    have no_rl: "t \<notin> set (map fst (ratelimited (log s)))"
    proof
      assume "t \<in> set (map fst (ratelimited (log s)))"
      then obtain e where "(t, e) \<in> set (ratelimited (log s))" by auto
      then obtain w where w: "RateLimited w t e \<in> set (log s)"
        by (auto simp: in_ratelimited_iff)
      with ev have "event_ok g (RateLimited w t e)" by blast
      then have rl: "is_rate_limit e" by simp
      from w have "(t, Rejected e) \<in> set (settled (log s))"
        by (auto simp: in_settled_iff)
      with l obtain h where "Rejected e = roles_create g h t"
        using settled_is_response by blast
      with perm rl show False by (metis outcome.inject(2))
    qed
    have no_push: "t \<notin> fst ` set (pushed (log s))"
    proof
      assume "t \<in> fst ` set (pushed (log s))"
      then obtain r where "(t, r) \<in> set (pushed (log s))" by auto
      then obtain w where "Found w t r \<in> set (log s) \<or> Created w t r \<in> set (log s)"
        by (auto simp: in_pushed_iff)
      then show False
      proof
        assume "Found w t r \<in> set (log s)"
        with ev have "event_ok g (Found w t r)" by blast
        with assms(4) show False by simp
      next
        assume c: "Created w t r \<in> set (log s)"
        then have "(t, Resolved r) \<in> set (settled (log s))"
          by (auto simp: in_settled_iff)
        with l obtain h where "Resolved r = roles_create g h t"
          using settled_is_response by blast
        with perm show False by (metis outcome.distinct(1))
      qed
    qed
    have "count (mset (map fst (pushed (log s))) + mset (map fst (failed (log s)))) t
        = count (mset tasks) t"
      using fin(3) by simp
    moreover have "count (image_mset fst (mset (pushed (log s)))) t = 0"
      using no_push by (rule count_absent)
    ultimately have "count_list (map fst (failed (log s))) t = count_list tasks t"
      by (simp add: count_image_list count_mset)
    moreover have "count_list (map fst (ratelimited (log s))) t = 0"
      using no_rl by simp
    ultimately show ?thesis using general no_push by simp
  qed
  from fin(1) cr general special show ?thesis by blast
qed

theorem permanent_failure_not_retried_witness:
  "run broken_guild [red, blue] 1 [0, 0, 0] = Inr broken_end
   \<and> resolved broken_end \<and> (1::nat) \<le> 1
   \<and> cache_find broken_guild (name red) = None
   \<and> roles_create broken_guild [] red = Rejected forbidden \<and> \<not> is_rate_limit forbidden
   \<and> count_list (creates (log broken_end)) red = count_list [red, blue] red
   \<and> count_list [red, blue] red = 1
   \<and> failed (log broken_end) = [(red, forbidden)]
   \<and> shifted (log broken_end) = [red, blue]
   \<and> createdRoles broken_end = [made blue]"
proof -
  have r: "run broken_guild [red, blue] 1 [0, 0, 0] = Inr broken_end"
    unfolding broken_end_def by (rule run_end_of)
  have res: "resolved broken_end" by code_simp
  have k: "(1::nat) \<le> 1" by simp
  have nf: "cache_find broken_guild (name red) = None"
    by (simp add: cache_find_def broken_guild_def)
  have perm: "\<forall>h. \<exists>e. roles_create broken_guild h red = Rejected e \<and> \<not> is_rate_limit e"
    using not_rate_limit_forbidden by (simp add: broken_guild_def red_def)
  have p0: "roles_create broken_guild [] red = Rejected forbidden"
    by (simp add: broken_guild_def red_def)
  have one: "count_list [red, blue] red = 1" by (simp add: red_def blue_def)
  have f: "failed (log broken_end) = [(red, forbidden)]" by code_simp
  have cr: "createdRoles broken_end = [made blue]" by code_simp
  from permanent_failure_not_retried [OF r res k nf] perm
  have "shifted (log broken_end) = [red, blue]"
    and "count_list (creates (log broken_end)) red = count_list [red, blue] red"
    by blast+
  with r res k nf p0 not_rate_limit_forbidden one f cr show ?thesis by simp
qed

text \<open>
  On typed values the call does not raise: it is still waiting or it has returned its
  array, which is never longer than the input; with \<open>k \<ge> 1\<close> the tasks missing from the
  returned array are exactly the logged permanent failures.
\<close>

lemma typed_batch_outcome:
  "\<exists>s. run g tasks k sched = Inr s
        \<and> length (createdRoles s) \<le> length tasks
        \<and> (resolved s \<and> 1 \<le> k \<longrightarrow>
               length (createdRoles s) + length (failed (log s)) = length tasks)"
proof -
  obtain s where r: "run g tasks k sched = Inr s"
    unfolding run_def using exec_never_raises by blast
  have l: "ledger g tasks s" using r by (rule run_ledger)
  have cr: "length (createdRoles s) = length (pushed (log s))"
    using l by (simp add: ledger_def)
  have "size (mset (map fst (pushed (log s))) + mset (map fst (failed (log s))) + inflight s)
      = size (mset (shifted (log s)))"
    using l by (simp add: ledger_def)
  then have "length (pushed (log s)) \<le> length (shifted (log s))" by simp
  moreover have "length (shifted (log s)) \<le> length tasks"
    using l by (auto simp: ledger_def)
  ultimately have b: "length (createdRoles s) \<le> length tasks" using cr by simp
  have c: "length (createdRoles s) + length (failed (log s)) = length tasks"
    if "resolved s" "1 \<le> k"
  proof -
    have "size (mset (map fst (pushed (log s))) + mset (map fst (failed (log s))))
        = size (mset tasks)"
      using resolved_ledger(3) [OF r that] by simp
    with cr show ?thesis by simp
  qed
  from r b c show ?thesis by blast
qed

section \<open>Timed runs\<close>























lemma texec_append:
  "texec g (xs @ ys) sc =
     (case texec g xs sc of Inl e \<Rightarrow> Inl e | Inr sc' \<Rightarrow> texec g ys sc')"
proof (induction xs arbitrary: sc)
  case Nil
  show ?case by simp
next
  case (Cons x xs)
  obtain w dt where x: "x = (w, dt)" by (cases x)
  obtain s c where sc: "sc = (s, c)" by (cases sc)
  show ?case
    using Cons.IH by (simp add: x sc Let_def split: sum.splits)
qed

lemma texec_at_once:
  assumes "texec g (map (\<lambda>w. (w, 0)) ws) (s, c) = Inr (s', c')"
    and "\<forall>w\<in>set ws. wake c ! w \<le> now c" and "distinct ws"
  shows "exec g ws s = Inr s'"
  using assms
proof (induction ws arbitrary: s c)
  case Nil
  then show ?case by simp
next
  case (Cons w ws)
  have rd: "wake c ! w \<le> now c" using Cons.prems(2) by simp
  show ?case
  proof (cases "enabled w s")
    case True
    obtain s1 where r: "resume g w s = Inr s1"
      by (simp add: resume_commit)
    let ?c1 = "\<lparr>now = now c,
                wake = (wake c)[w := now c + sleep_of (drop (length (log s)) (log s1))],
                tlog = tlog c @ map (Pair (now c)) (drop (length (log s)) (log s1))\<rparr>"
    have t: "texec g (map (\<lambda>w. (w, 0)) ws) (s1, ?c1) = Inr (s', c')"
      using Cons.prems(1) True rd r by (simp add: Let_def)
    have "wake ?c1 ! v \<le> now ?c1" if "v \<in> set ws" for v
    proof -
      from that Cons.prems(3) have "v \<noteq> w" by auto
      with that Cons.prems(2) show ?thesis by simp
    qed
    then have "\<forall>v\<in>set ws. wake ?c1 ! v \<le> now ?c1" by blast
    moreover have "distinct ws" using Cons.prems(3) by simp
    ultimately have "exec g ws s1 = Inr s'"
      using t by (intro Cons.IH)
    with True r show ?thesis by simp
  next
    case False
    with Cons.prems(1) have t: "texec g (map (\<lambda>w. (w, 0)) ws) (s, c\<lparr>now := now c\<rparr>) = Inr (s', c')"
      by (simp add: Let_def)
    have "\<forall>v\<in>set ws. wake (c\<lparr>now := now c\<rparr>) ! v \<le> now (c\<lparr>now := now c\<rparr>)"
      using Cons.prems(2) by simp
    moreover have "distinct ws" using Cons.prems(3) by simp
    ultimately have "exec g ws s = Inr s'"
      using t by (intro Cons.IH)
    with False show ?thesis by simp
  qed
qed


lemma texec_never_raises: "\<exists>sc'. texec g ts (s, c) = Inr sc'"
proof (induction ts arbitrary: s c)
  case Nil
  show ?case by simp
next
  case (Cons x ts)
  obtain w dt where x: "x = (w, dt)" by (cases x)
  show ?case
    using Cons.IH by (simp add: x Let_def resume_commit)
qed


text \<open>And every state of a run is the state of a timed run: the clock rules out no state.\<close>

lemma exec_texec:
  "exec g sched s = Inr s' \<Longrightarrow> \<exists>ts c'. texec g ts (s, c) = Inr (s', c')"
proof (induction sched arbitrary: s c)
  case Nil
  then have "texec g [] (s, c) = Inr (s', c)" by simp
  then show ?case by blast
next
  case (Cons w ws)
  show ?case
  proof (cases "enabled w s")
    case False
    with Cons.prems have "exec g ws s = Inr s'" by simp
    then show ?thesis by (rule Cons.IH)
  next
    case True
    obtain s1 where r: "resume g w s = Inr s1" by (simp add: resume_commit)
    with Cons.prems True have "exec g ws s1 = Inr s'" by simp
    define dt where "dt = nat (wake c ! w - now c)"
    define t where "t = now c + int dt"
    define c1 where "c1 = \<lparr>now = t, wake = (wake c)[w := t + sleep_of (drop (length (log s)) (log s1))],
                tlog = tlog c @ map (Pair t) (drop (length (log s)) (log s1))\<rparr>"
    from \<open>exec g ws s1 = Inr s'\<close> obtain ts c' where n: "texec g ts (s1, c1) = Inr (s', c')"
      using Cons.IH by blast
    have "wake c ! w \<le> t" by (simp add: t_def dt_def)
    with True r n have "texec g ((w, dt) # ts) (s, c) = Inr (s', c')"
      by (simp add: Let_def t_def c1_def)
    then show ?thesis by blast
  qed
qed

lemma run_trun:
  assumes "run g tasks k sched = Inr s"
  shows "\<exists>ts c. trun g tasks k ts = Inr (s, c)"
proof -
  obtain sc where a: "texec g (map (\<lambda>w. (w, 0)) [0 ..< k]) (init tasks k, start k) = Inr sc"
    using texec_never_raises by blast
  obtain s1 c1 where sc: "sc = (s1, c1)" by (cases sc)
  have "\<forall>w\<in>set [0 ..< k]. wake (start k) ! w \<le> now (start k)"
    by (simp add: start_def)
  with a sc have "exec g [0 ..< k] (init tasks k) = Inr s1"
    by (intro texec_at_once) simp_all
  with assms have "exec g sched s1 = Inr s"
    by (simp add: run_def exec_append)
  then obtain ts c where "texec g ts (s1, c1) = Inr (s, c)"
    using exec_texec by blast
  with a sc have "trun g tasks k ts = Inr (s, c)"
    by (simp add: trun_def texec_append)
  then show ?thesis by blast
qed

subsection \<open>The protocol on the clock\<close>












section \<open>The untyped function and the typed one\<close>

text \<open>
  Where every rejection is classifiable and the count is an array length, the function on
  untyped values does, step by step, what the typed function does.
\<close>

lemma classify_typed:
  "classifiable v \<Longrightarrow> is_rate_limit_js v = Inr (is_rate_limit (as_err v))"
  by (auto simp: classifiable_def is_rate_limit_js_def is_rate_limit_def as_err_def
      split: thrown.splits message_value.splits)

lemma typed_end_simps [simp]:
  "typed_end (Inl e) = Inl e" "typed_end (Inr s) = Inr (typed_state s)"
  by (simp_all add: typed_end_def)

lemma typed_state_fields:
  "queue (typed_state s) = js_queue s"
  "createdRoles (typed_state s) = js_createdRoles s"
  "workers (typed_state s) = map typed_pc (js_workers s)"
  "log (typed_state s) = js_log s"
  by (simp_all add: typed_state_def)

lemma typed_guild_fields:
  "cache_find (typed_guild g) n = find (\<lambda>r. role_name r = n) (js_cache g)"
  "roles_create (typed_guild g) h t = typed_outcome (js_create g h t)"
  by (simp_all add: typed_guild_def cache_find_def)

lemma worker_loop_typed:
  "typed_end (worker_loop_js g w s) = worker_loop (typed_guild g) w (typed_state s)"
proof (induction g w s rule: worker_loop_js.induct)
  case (1 g w s)
  show ?case
  proof (cases "js_queue s")
    case Nil
    then show ?thesis
      by (subst worker_loop_js.simps, subst worker_loop.simps)
         (simp add: typed_state_def map_update)
  next
    case (Cons t q)
    show ?thesis
    proof (cases "find (\<lambda>r. role_name r = name t) (js_cache g)")
      case None
      with Cons show ?thesis
        by (subst worker_loop_js.simps, subst worker_loop.simps)
           (simp add: typed_state_def typed_guild_fields map_update shift_def)
    next
      case (Some r)
      let ?s = "s\<lparr>js_queue := q, js_createdRoles := js_createdRoles s @ [r],
                    js_log := js_log s @ [Shift w t, Found w t r]\<rparr>"
      from "1.IH" [of "Some t" q t r] Cons Some
      have "typed_end (worker_loop_js g w ?s) =
              worker_loop (typed_guild g) w (typed_state ?s)"
        by (simp add: shift_def)
      moreover have "typed_state ?s =
          (typed_state s)\<lparr>queue := q, createdRoles := createdRoles (typed_state s) @ [r],
                           log := log (typed_state s) @ [Shift w t, Found w t r]\<rparr>"
        by (simp add: typed_state_def)
      ultimately show ?thesis
        using Cons Some
        by (subst worker_loop_js.simps, subst worker_loop.simps)
           (simp add: typed_state_fields typed_guild_fields shift_def)
    qed
  qed
qed

lemma worker_loop_settles:
  assumes "worker_loop_js g w s = Inr s'" and "classifiable_guild g"
    and "\<forall>p\<in>set (js_workers s). settles p"
  shows "\<forall>p\<in>set (js_workers s'). settles p"
  using assms
proof (induction g w s rule: worker_loop_js.induct)
  case (1 g w s)
  show ?case
  proof (cases "js_queue s")
    case Nil
    with "1.prems"(1) have "js_workers s' = (js_workers s)[w := JsFinished]"
      by (subst (asm) worker_loop_js.simps) auto
    with "1.prems"(3) show ?thesis
      by (auto dest!: set_update_subset_insert [THEN subsetD])
  next
    case (Cons t q)
    show ?thesis
    proof (cases "find (\<lambda>r. role_name r = name t) (js_cache g)")
      case None
      let ?out = "js_create g (creates (js_log s)) t"
      from Cons None "1.prems"(1)
      have "js_workers s' = (js_workers s)[w := JsAwaitCreate t ?out]"
        by (subst (asm) worker_loop_js.simps) (auto simp: shift_def)
      moreover have "settles (JsAwaitCreate t ?out)"
        using "1.prems"(2) by (cases ?out) (auto simp: classifiable_guild_def)
      ultimately show ?thesis
        using "1.prems"(3) by (auto dest!: set_update_subset_insert [THEN subsetD])
    next
      case (Some r)
      let ?s = "s\<lparr>js_queue := q, js_createdRoles := js_createdRoles s @ [r],
                    js_log := js_log s @ [Shift w t, Found w t r]\<rparr>"
      from Cons Some "1.prems"(1) have "worker_loop_js g w ?s = Inr s'"
        by (subst (asm) worker_loop_js.simps) (simp add: shift_def)
      moreover have "\<forall>p\<in>set (js_workers ?s). settles p" using "1.prems"(3) by simp
      ultimately show ?thesis
        using "1.IH" [of "Some t" q t r] Cons Some "1.prems"(2) by (simp add: shift_def)
    qed
  qed
qed

lemma typed_pc_Finished: "typed_pc p = Finished \<longleftrightarrow> p = JsFinished"
  by (cases p) simp_all

lemma enabled_typed: "enabled w (typed_state s) = enabled_js w s"
  by (auto simp: enabled_def enabled_js_def typed_state_fields typed_pc_Finished)

lemma resume_typed:
  assumes "w < length (js_workers s)" and "settles (js_workers s ! w)"
  shows "typed_end (resume_js g w s) = resume (typed_guild g) w (typed_state s)"
proof (cases "js_workers s ! w")
  case (JsAwaitCreate t out)
  show ?thesis
  proof (cases out)
    case (Fulfilled r)
    with JsAwaitCreate assms(1) show ?thesis
      by (simp add: resume_js_def resume_def typed_state_def typed_outcome_def map_update)
  next
    case (RejectedWith v)
    with JsAwaitCreate assms(2) have c: "classifiable v" by simp
    show ?thesis
    proof (cases "is_rate_limit (as_err v)")
      case True
      with JsAwaitCreate RejectedWith assms(1) classify_typed [OF c] show ?thesis
        by (simp add: resume_js_def resume_def typed_state_def typed_outcome_def map_update)
    next
      case False
      have "typed_state (s\<lparr>js_log := js_log s @ [Failed w t (as_err v)]\<rparr>) =
          (typed_state s)\<lparr>log := log (typed_state s) @ [Failed w t (as_err v)]\<rparr>"
        by (simp add: typed_state_def)
      with False JsAwaitCreate RejectedWith assms(1) classify_typed [OF c]
        worker_loop_typed [of g w "s\<lparr>js_log := js_log s @ [Failed w t (as_err v)]\<rparr>"]
      show ?thesis
        by (simp add: resume_js_def resume_def typed_state_fields typed_outcome_def)
    qed
  qed
next
  case JsAtLoop
  with assms(1) show ?thesis
    by (simp add: resume_js_def resume_def typed_state_fields worker_loop_typed)
next
  case JsAwaitPace
  with assms(1) show ?thesis
    by (simp add: resume_js_def resume_def typed_state_fields worker_loop_typed)
next
  case (JsAwaitBackoff t)
  with assms(1) show ?thesis
    by (simp add: resume_js_def resume_def typed_state_def typed_guild_fields map_update)
next
  case JsFinished
  with assms(1) show ?thesis
    by (simp add: resume_js_def resume_def typed_state_fields)
qed

lemma resume_settles:
  assumes "resume_js g w s = Inr s'" and "classifiable_guild g"
    and "\<forall>p\<in>set (js_workers s). settles p"
  shows "\<forall>p\<in>set (js_workers s'). settles p"
proof (cases "js_workers s ! w")
  case (JsAwaitCreate t out)
  show ?thesis
  proof (cases out)
    case (Fulfilled r)
    with JsAwaitCreate assms(1) have "js_workers s' = (js_workers s)[w := JsAwaitPace]"
      by (auto simp: resume_js_def)
    with assms(3) show ?thesis
      by (auto dest!: set_update_subset_insert [THEN subsetD])
  next
    case (RejectedWith v)
    from JsAwaitCreate RejectedWith assms(1)
    consider "js_workers s' = (js_workers s)[w := JsAwaitBackoff t]"
      | "worker_loop_js g w (s\<lparr>js_log := js_log s @ [Failed w t (as_err v)]\<rparr>) = Inr s'"
      by (auto simp: resume_js_def split: sum.splits if_splits)
    then show ?thesis
    proof cases
      case 1
      with assms(3) show ?thesis
        by (auto dest!: set_update_subset_insert [THEN subsetD])
    next
      case 2
      from this assms(2) show ?thesis
        by (rule worker_loop_settles) (use assms(3) in simp)
    qed
  qed
next
  case JsAtLoop
  with assms(1) have "worker_loop_js g w s = Inr s'" by (simp add: resume_js_def)
  from this assms(2,3) show ?thesis by (rule worker_loop_settles)
next
  case JsAwaitPace
  with assms(1) have "worker_loop_js g w s = Inr s'" by (simp add: resume_js_def)
  from this assms(2,3) show ?thesis by (rule worker_loop_settles)
next
  case (JsAwaitBackoff t)
  let ?out = "js_create g (creates (js_log s)) t"
  from JsAwaitBackoff assms(1)
  have "js_workers s' = (js_workers s)[w := JsAwaitCreate t ?out]"
    by (auto simp: resume_js_def)
  moreover have "settles (JsAwaitCreate t ?out)"
    using assms(2) by (cases ?out) (auto simp: classifiable_guild_def)
  ultimately show ?thesis
    using assms(3) by (auto dest!: set_update_subset_insert [THEN subsetD])
next
  case JsFinished
  with assms(1,3) show ?thesis by (simp add: resume_js_def)
qed

lemma exec_typed:
  assumes "classifiable_guild g" and "\<forall>p\<in>set (js_workers s). settles p"
  shows "typed_end (exec_js g sched s) = exec (typed_guild g) sched (typed_state s)"
  using assms(2)
proof (induction sched arbitrary: s)
  case Nil
  show ?case by simp
next
  case (Cons w ws)
  show ?case
  proof (cases "enabled_js w s")
    case False
    with Cons show ?thesis by (simp add: enabled_typed)
  next
    case True
    then have w: "w < length (js_workers s)" by (simp add: enabled_js_def)
    with Cons.prems have "settles (js_workers s ! w)" by simp
    with w have r: "typed_end (resume_js g w s) =
        resume (typed_guild g) w (typed_state s)"
      by (rule resume_typed)
    show ?thesis
    proof (cases "resume_js g w s")
      case (Inl e)
      with r True show ?thesis by (simp add: enabled_typed flip: r)
    next
      case (Inr s')
      from Inr assms(1) Cons.prems have "\<forall>p\<in>set (js_workers s'). settles p"
        by (rule resume_settles)
      then have "typed_end (exec_js g ws s') =
          exec (typed_guild g) ws (typed_state s')"
        by (rule Cons.IH)
      with r Inr True show ?thesis by (simp add: enabled_typed flip: r)
    qed
  qed
qed

lemma init_typed: "typed_state (init_js tasks n) = init tasks n"
  by (simp add: typed_state_def init_js_def init_def)

lemma resolved_typed: "resolved (typed_state s) = resolved_js s"
  by (simp add: resolved_def resolved_js_def typed_state_fields list_all_iff typed_pc_Finished)

lemma run_typed:
  assumes "classifiable_guild g" and "array_length n"
  shows "typed_end (run_js g tasks n sched) =
           run (typed_guild g) tasks (nat \<lfloor>n\<rfloor>) sched"
proof -
  have "\<forall>p\<in>set (js_workers (init_js tasks (nat \<lfloor>n\<rfloor>))). settles p"
    by (simp add: init_js_def)
  with assms(1) have "typed_end
      (exec_js g ([0 ..< nat \<lfloor>n\<rfloor>] @ sched) (init_js tasks (nat \<lfloor>n\<rfloor>))) =
      exec (typed_guild g) ([0 ..< nat \<lfloor>n\<rfloor>] @ sched) (typed_state (init_js tasks (nat \<lfloor>n\<rfloor>)))"
    by (rule exec_typed)
  with assms(2) show ?thesis by (simp add: run_js_def run_def init_typed)
qed

lemma typed_call:
  assumes "classifiable_guild g" and "array_length n"
  shows "createRoleQueueConcurrent_js g tasks n sched =
           createRoleQueueConcurrent (typed_guild g) tasks (nat \<lfloor>n\<rfloor>) sched"
proof -
  have r: "typed_end (run_js g tasks n sched) =
      run (typed_guild g) tasks (nat \<lfloor>n\<rfloor>) sched"
    using assms by (rule run_typed)
  show ?thesis
  proof (cases "run_js g tasks n sched")
    case (Inl e)
    with r show ?thesis
      by (simp add: createRoleQueueConcurrent_js_def createRoleQueueConcurrent_def flip: r)
  next
    case (Inr s)
    with r show ?thesis
      by (simp add: createRoleQueueConcurrent_js_def createRoleQueueConcurrent_def
          resolved_typed typed_state_fields flip: r)
  qed
qed

text \<open>
  Claim C6, as stated, fails. The test in the catch block reads \<^verbatim>\<open>err.code\<close> and calls
  \<^verbatim>\<open>err.message?.includes\<close> outside any \<^verbatim>\<open>try\<close>: when \<^verbatim>\<open>create\<close> rejects with \<^verbatim>\<open>null\<close>, or
  with an object whose message is not a string, the test throws a TypeError, which rejects
  the worker and with it the call. And \<^verbatim>\<open>Array(concurrency)\<close> throws a RangeError for a
  count that is negative or not whole.
\<close>

theorem unclassifiable_rejection_counterexample:
  "createRoleQueueConcurrent_js null_guild [red, blue] 1 [0] = Raised TypeError
   \<and> createRoleQueueConcurrent_js odd_guild [red, blue] 1 [0] = Raised TypeError
   \<and> createRoleQueueConcurrent_js strict_guild [red, blue] (- 1) [] = Raised RangeError
   \<and> createRoleQueueConcurrent_js strict_guild [red, blue] (5 / 2) [] = Raised RangeError"
proof -
  have a: "createRoleQueueConcurrent_js null_guild [red, blue] 1 [0] = Raised TypeError"
    by code_simp
  have b: "createRoleQueueConcurrent_js odd_guild [red, blue] 1 [0] = Raised TypeError"
    by code_simp
  have c: "createRoleQueueConcurrent_js strict_guild [red, blue] (- 1) [] = Raised RangeError"
    by code_simp
  have d: "createRoleQueueConcurrent_js strict_guild [red, blue] (5 / 2) [] = Raised RangeError"
    by code_simp
  from a b c d show ?thesis by (intro conjI)
qed

text \<open>
  Claim C6, amended. For every task list, every count that is a length an array can have
  (a whole number from 0 to \<open>2\<^sup>3\<^sup>2 - 1\<close>), every snapshot, every \<^verbatim>\<open>create\<close> that rejects
  only with values the catch block can classify (not \<^verbatim>\<open>null\<close> or \<^verbatim>\<open>undefined\<close>, and with
  a message that is a string or missing unless the code is 30010) and every order in which
  the awaits settle, the call does not raise: it is still waiting or it has returned its
  array, which is never longer than the input; with a count of at least 1 the tasks
  missing from the returned array are exactly the logged permanent failures.
\<close>

theorem classifiable_batch_never_raises:
  assumes "classifiable_guild g" and "array_length n"
  shows "createRoleQueueConcurrent_js g tasks n sched \<noteq> Raised e
       \<and> (\<exists>s. run_js g tasks n sched = Inr s
            \<and> (if resolved_js s
                then createRoleQueueConcurrent_js g tasks n sched = Returned (js_createdRoles s)
                  \<and> length (js_createdRoles s) \<le> length tasks
                  \<and> (1 \<le> n \<longrightarrow>
                       length (js_createdRoles s) + length (failed (js_log s)) = length tasks)
                else createRoleQueueConcurrent_js g tasks n sched = Pending))"
proof -
  let ?k = "nat \<lfloor>n\<rfloor>"
  obtain s0 where r0: "run (typed_guild g) tasks ?k sched = Inr s0"
    and le: "length (createdRoles s0) \<le> length tasks"
    and all: "resolved s0 \<and> 1 \<le> ?k \<longrightarrow>
                length (createdRoles s0) + length (failed (log s0)) = length tasks"
    using typed_batch_outcome [of "typed_guild g" tasks ?k sched] by blast
  have "typed_end (run_js g tasks n sched) = Inr s0"
    using run_typed [OF assms] r0 by simp
  then obtain s where r: "run_js g tasks n sched = Inr s" and s0: "s0 = typed_state s"
    by (cases "run_js g tasks n sched") auto
  have a: "createRoleQueueConcurrent_js g tasks n sched \<noteq> Raised e"
    using r by (simp add: createRoleQueueConcurrent_js_def)
  have b: "length (js_createdRoles s) \<le> length tasks"
    using le s0 by (simp add: typed_state_fields)
  have c: "length (js_createdRoles s) + length (failed (js_log s)) = length tasks"
    if "resolved_js s" "1 \<le> n"
  proof -
    from that(2) have "(1::int) \<le> \<lfloor>n\<rfloor>" by (simp add: le_floor_iff)
    then have "1 \<le> ?k" by linarith
    with all that(1) s0 show ?thesis
      by (simp add: resolved_typed typed_state_fields)
  qed
  from r a b c show ?thesis
    by (auto simp: createRoleQueueConcurrent_js_def)
qed

theorem classifiable_batch_never_raises_witness:
  "classifiable_guild strict_guild \<and> array_length 1
   \<and> createRoleQueueConcurrent_js strict_guild [red, blue] 1 [0, 0, 0] \<noteq> Raised TypeError
   \<and> createRoleQueueConcurrent_js strict_guild [red, blue] 1 [0, 0, 0] = Returned [made blue]
   \<and> createRoleQueueConcurrent_js strict_guild [red, blue] 1 [0, 0] = Pending"
proof -
  have g: "classifiable_guild strict_guild"
    by (simp add: classifiable_guild_def strict_guild_def classifiable_def)
  have n: "array_length 1" by code_simp
  have a: "createRoleQueueConcurrent_js strict_guild [red, blue] 1 [0, 0, 0] \<noteq> Raised TypeError"
    using classifiable_batch_never_raises [OF g n, of "[red, blue]" "[0, 0, 0]" TypeError]
    by (rule conjunct1)
  have b: "createRoleQueueConcurrent_js strict_guild [red, blue] 1 [0, 0, 0] = Returned [made blue]"
    by code_simp
  have c: "createRoleQueueConcurrent_js strict_guild [red, blue] 1 [0, 0] = Pending"
    by code_simp
  from g n a b c show ?thesis by (intro conjI)
qed



text \<open>
  Claim C7. With \<open>k \<ge> 1\<close> workers the call returns only in a state whose queue is
  empty. Nothing but the workers finishing ends the call. When each task is rate limited
  finitely often, no run of the call goes on forever (the continuation steps from the
  states a run reaches are well-founded) and every run can be continued to the return of
  the call; when some task of the input has no role in the snapshot and every request for
  it is answered with a rate limit, it is retried for ever and the call never returns,
  whatever the order of the awaits.
\<close>

theorem resolves_only_when_drained:
  assumes "1 \<le> k"
  shows "(run g tasks k sched = Inr s \<and> resolved s \<longrightarrow> queue s = [])
       \<and> (bounded_retry g b \<longrightarrow>
            wf (steps g tasks k)
            \<and> (\<exists>more rs. createRoleQueueConcurrent g tasks k (sched @ more) = Returned rs))
       \<and> (t \<in> set tasks \<and> notfound g t \<and> always_limited g t \<longrightarrow>
            createRoleQueueConcurrent g tasks k sched = Pending)"
  using assms resolved_queue_empty wf_steps run_can_finish starved_pending
  by blast

theorem resolves_only_when_drained_witness:
  "(1::nat) \<le> 2
   \<and> run flaky_guild [red, blue] 2 [0, 1, 0, 1, 0, 1, 0, 1] = Inr flaky_end
   \<and> resolved flaky_end \<and> queue flaky_end = []
   \<and> bounded_retry flaky_guild (\<lambda>t. 1) \<and> wf (steps flaky_guild [red, blue] 2)
   \<and> red \<in> set [red, blue] \<and> notfound jam_guild red \<and> always_limited jam_guild red
   \<and> createRoleQueueConcurrent jam_guild [red, blue] 2 [0, 1, 0, 1, 0, 1, 0, 1] = Pending"
proof -
  have k: "(1::nat) \<le> 2" by simp
  have r: "run flaky_guild [red, blue] 2 [0, 1, 0, 1, 0, 1, 0, 1] = Inr flaky_end"
    unfolding flaky_end_def by (rule run_end_of)
  have res: "resolved flaky_end" by code_simp
  have br: "bounded_retry flaky_guild (\<lambda>t. 1)"
    by (simp add: bounded_retry_def flaky_guild_def rate_limited_def)
  have al: "always_limited jam_guild red"
    using rate_limit_slow_down by (simp add: always_limited_def jam_guild_def rate_limited_def)
  have nf: "notfound jam_guild red"
    by (simp add: notfound_def cache_find_def jam_guild_def)
  have ex: "red \<in> set [red, blue]" by simp
  have q: "queue flaky_end = []"
    using resolves_only_when_drained [OF k, of flaky_guild "[red, blue]"
        "[0, 1, 0, 1, 0, 1, 0, 1]" flaky_end "\<lambda>t. 1"] r res
    by blast
  have w: "wf (steps flaky_guild [red, blue] 2)"
    using resolves_only_when_drained [OF k, of flaky_guild "[red, blue]"
        "[0, 1, 0, 1, 0, 1, 0, 1]" flaky_end "\<lambda>t. 1"] br
    by blast
  have p: "createRoleQueueConcurrent jam_guild [red, blue] 2 [0, 1, 0, 1, 0, 1, 0, 1] = Pending"
    using resolves_only_when_drained [OF k, of jam_guild "[red, blue]"
        "[0, 1, 0, 1, 0, 1, 0, 1]" flaky_end "\<lambda>t. 1" red] al ex nf
    by blast
  from k r res q br w ex nf al p show ?thesis by (intro conjI)
qed



text \<open>
  Claim C8, as stated, fails: for a guild whose answers depend on the order of the requests
  of different tasks, one worker and five workers return arrays of different sizes. With
  one worker the refused second request is the retry for the red role; with five workers
  it would be the request for the blue role, which is not refused.
\<close>

theorem order_sensitive_counterexample:
  "createRoleQueueConcurrent order_guild [red, blue] 1 [0, 0, 0, 0, 0] = Returned [made blue]
   \<and> createRoleQueueConcurrent order_guild [red, blue] 5 [0, 1, 1, 0, 0, 0] =
       Returned [made blue, made red]
   \<and> length [made blue] \<noteq> length [made blue, made red]"
proof -
  have a: "createRoleQueueConcurrent order_guild [red, blue] 1 [0, 0, 0, 0, 0] =
      Returned [made blue]"
    by code_simp
  have b: "createRoleQueueConcurrent order_guild [red, blue] 5 [0, 1, 1, 0, 0, 0] =
      Returned [made blue, made red]"
    by code_simp
  from a b show ?thesis by simp
qed

text \<open>
  Claim C8, amended. For every task list and snapshot and every \<^verbatim>\<open>create\<close> whose
  answer depends only on a key of the task and on the number of earlier requests with that
  key (in particular: on the task and the number of earlier requests for it, or on the
  number of requests so far), any two runs that return, with worker counts \<open>k, k' \<ge> 1\<close>
  such as 1 and 5 and under any schedules, return arrays of the same size.
\<close>

theorem same_count_for_any_concurrency:
  assumes "answers_by g key f" and "1 \<le> k" and "1 \<le> k'"
    and "createRoleQueueConcurrent g tasks k sched = Returned rs"
    and "createRoleQueueConcurrent g tasks k' sched' = Returned rs'"
  shows "length rs = length rs'"
proof -
  from assms(4) obtain s where s: "run g tasks k sched = Inr s" "resolved s" "rs = createdRoles s"
    by (auto simp: createRoleQueueConcurrent_def split: sum.splits if_splits)
  from assms(5) obtain s' where s': "run g tasks k' sched' = Inr s'" "resolved s'"
    "rs' = createdRoles s'"
    by (auto simp: createRoleQueueConcurrent_def split: sum.splits if_splits)
  have "length (failed (log s)) = length (failed (log s'))"
    using assms(1) s(1,2) assms(2) s'(1,2) assms(3) by (rule same_failures)
  moreover have "length (createdRoles s) + length (failed (log s)) = length tasks"
    using s(1,2) assms(2) by (rule resolved_count)
  moreover have "length (createdRoles s') + length (failed (log s')) = length tasks"
    using s'(1,2) assms(3) by (rule resolved_count)
  ultimately show ?thesis using s(3) s'(3) by simp
qed

theorem same_count_for_any_concurrency_witness:
  "answers_by flaky_guild id flaky_answer \<and> (1::nat) \<le> 1 \<and> (1::nat) \<le> 5
   \<and> createRoleQueueConcurrent flaky_guild [red, blue] 1 [0, 0, 0, 0, 0, 0, 0, 0] =
       Returned [made red, made blue]
   \<and> createRoleQueueConcurrent flaky_guild [red, blue] 5 [1, 0, 1, 0, 1, 0, 1, 0] =
       Returned [made blue, made red]
   \<and> length [made red, made blue] = length [made blue, made red]"
proof -
  have a: "answers_by flaky_guild id flaky_answer"
    by (simp add: answers_by_def flaky_guild_def flaky_answer_def)
  have k: "(1::nat) \<le> 1" "(1::nat) \<le> 5" by simp_all
  have r1: "createRoleQueueConcurrent flaky_guild [red, blue] 1 [0, 0, 0, 0, 0, 0, 0, 0] =
       Returned [made red, made blue]"
    by code_simp
  have r5: "createRoleQueueConcurrent flaky_guild [red, blue] 5 [1, 0, 1, 0, 1, 0, 1, 0] =
       Returned [made blue, made red]"
    by code_simp
  from same_count_for_any_concurrency [OF a k r1 r5] a k r1 r5 show ?thesis
    by (intro conjI)
qed

section \<open>Claims on chunkArray and the select-menu handler\<close>

lemma concat_slices:
  "concat (map (\<lambda>i. slice arr (i * s) (i * s + s)) [0 ..< n]) = take (n * s) arr"
proof (induction n)
  case 0
  show ?case by simp
next
  case (Suc n)
  have "take (n * s) arr @ take s (drop (n * s) arr) = take (n * s + s) arr"
    by (simp add: take_add)
  with Suc show ?case by (simp add: slice_def add.commute)
qed

lemma ceil_div_covers:
  assumes "0 < s"
  shows "n \<le> ceil_div n s * s"
proof -
  have "n + s - 1 < ((n + s - 1) div s) * s + s"
    using assms by (metis add.commute dividend_less_div_times)
  then show ?thesis using assms by (simp add: ceil_div_def)
qed

lemma ceil_div_tight:
  assumes "0 < s" and "Suc i < ceil_div n s"
  shows "Suc i * s \<le> n"
proof -
  have "Suc (Suc i) \<le> (n + s - 1) div s"
    using assms(2) by (simp add: ceil_div_def)
  then have "Suc (Suc i) * s \<le> n + s - 1"
    using assms(1) by (simp add: less_eq_div_iff_mult_less_eq)
  then show ?thesis using assms(1) by simp
qed

lemma length_slice: "length (slice arr (i * s) (i * s + s)) = min s (length arr - i * s)"
  by (simp add: slice_def)

text \<open>
  Claim C9. For every array and every chunk size \<open>sz > 0\<close>, \<open>chunkArray\<close> returns chunks
  whose concatenation is the array, each of length at most \<open>sz\<close>, and each but possibly the
  last of length exactly \<open>sz\<close>; and every page of the dropdown, built from the chunks of
  size 25, has at most 25 options.
\<close>

theorem chunkArray_partition:
  assumes "0 < sz"
  shows "\<exists>chunks. chunkArray arr sz = Inr chunks \<and> concat chunks = arr
           \<and> (\<forall>c \<in> set chunks. length c \<le> sz)
           \<and> (\<forall>i. Suc i < length chunks \<longrightarrow> length (chunks ! i) = sz)
           \<and> (\<exists>pages. dropdown_pages g rolesData = Inr pages \<and> (\<forall>p \<in> set pages. length p \<le> 25))"
proof -
  define n where "n = ceil_div (length arr) sz"
  define chunks where "chunks = map (\<lambda>i. slice arr (i * sz) (i * sz + sz)) [0 ..< n]"
  have c: "chunkArray arr sz = Inr chunks"
    using assms by (simp add: chunkArray_def chunks_def n_def)
  have "concat chunks = take (n * sz) arr"
    unfolding chunks_def by (rule concat_slices)
  moreover have "length arr \<le> n * sz"
    unfolding n_def using assms by (rule ceil_div_covers)
  ultimately have cc: "concat chunks = arr" by simp
  have le: "\<forall>c \<in> set chunks. length c \<le> sz"
    by (auto simp: chunks_def length_slice)
  have full: "\<forall>i. Suc i < length chunks \<longrightarrow> length (chunks ! i) = sz"
  proof (intro allI impI)
    fix i assume i: "Suc i < length chunks"
    then have "Suc i < ceil_div (length arr) sz" by (simp add: chunks_def n_def)
    with assms have "Suc i * sz \<le> length arr" by (rule ceil_div_tight)
    then have "sz \<le> length arr - i * sz" by simp
    moreover have "i < n" using i by (simp add: chunks_def)
    ultimately show "length (chunks ! i) = sz"
      by (simp add: chunks_def length_slice)
  qed
  have pg: "\<exists>pages. dropdown_pages g rolesData = Inr pages \<and> (\<forall>p \<in> set pages. length p \<le> 25)"
    by (auto simp: dropdown_pages_def chunkArray_def menu_options_def length_slice)
  from c cc le full pg show ?thesis by blast
qed

theorem chunkArray_partition_witness:
  "(0::nat) < 2
   \<and> chunkArray [1, 2, 3, 4, 5 :: nat] 2 = Inr [[1, 2], [3, 4], [5]]
   \<and> concat [[1, 2], [3, 4], [5 :: nat]] = [1, 2, 3, 4, 5]
   \<and> dropdown_pages full_guild [red, blue] =
       Inr [[\<lparr>label = ''Red'', opt_value = ''1'', opt_emoji = None, description = ''#ff0000''\<rparr>,
             \<lparr>label = ''Blue'', opt_value = ''2'', opt_emoji = None, description = ''#0000ff''\<rparr>]]"
proof -
  have pos: "(0::nat) < 2" by simp
  obtain chunks pages where c: "chunkArray [1, 2, 3, 4, 5 :: nat] 2 = Inr chunks"
    "concat chunks = [1, 2, 3, 4, 5]" "dropdown_pages full_guild [red, blue] = Inr pages"
    using chunkArray_partition [OF pos, of "[1, 2, 3, 4, 5 :: nat]" full_guild "[red, blue]"]
    by blast
  have v: "chunkArray [1, 2, 3, 4, 5 :: nat] 2 = Inr [[1, 2], [3, 4], [5]]"
    by code_simp
  have p: "dropdown_pages full_guild [red, blue] =
       Inr [[\<lparr>label = ''Red'', opt_value = ''1'', opt_emoji = None, description = ''#ff0000''\<rparr>,
             \<lparr>label = ''Blue'', opt_value = ''2'', opt_emoji = None, description = ''#0000ff''\<rparr>]]"
    by code_simp
  from c v p pos show ?thesis by simp
qed









end
